theory Spec2Isabelle
  imports Main
begin

unbundle bit_operations_syntax

section \<open>Register liveness and occupancy of the ACO compiler (aco_live_var_analysis.cpp)\<close>

text \<open>
  A shallow embedding of \<^verbatim>\<open>src/amd/compiler/aco_live_var_analysis.cpp\<close>. Mutation of the
  program graph is explicit state passing. What the C++ leaves undefined or aborts on is a
  value of the type \<open>error\<close>: an \<^verbatim>\<open>assert\<close> that fails (assertions are modelled as compiled
  in, like the diagnostic under \<^verbatim>\<open>#ifndef NDEBUG\<close>), an integer division by zero, and an
  index outside a \<^verbatim>\<open>std::vector\<close>.
\<close>

subsection \<open>Errors and machine integers\<close>

datatype error = AssertionFailed | DivisionByZero | OutOfBounds

definition bindE :: "error + 'a \<Rightarrow> ('a \<Rightarrow> error + 'b) \<Rightarrow> error + 'b" where
  "bindE m f = (case m of Inl e \<Rightarrow> Inl e | Inr x \<Rightarrow> f x)"

definition assertE :: "bool \<Rightarrow> error + unit" where
  "assertE c = (if c then Inr () else Inl AssertionFailed)"

text \<open>Conversion to \<^verbatim>\<open>uint16_t\<close> and to \<^verbatim>\<open>unsigned\<close> (32 bits): the value modulo the width.\<close>

definition u16 :: "nat \<Rightarrow> nat" where
  "u16 n = n mod 65536"

definition u32 :: "nat \<Rightarrow> nat" where
  "u32 n = n mod 4294967296"

definition u16_of_int :: "int \<Rightarrow> nat" where
  "u16_of_int i = nat (i mod 65536)"

definition UINT_MAX :: nat where
  "UINT_MAX = 4294967295"

text \<open>The division and remainder of C on unsigned operands: a zero divisor is undefined.\<close>

definition divE :: "nat \<Rightarrow> nat \<Rightarrow> error + nat" where
  "divE a b = (if b = 0 then Inl DivisionByZero else Inr (a div b))"

definition modE :: "nat \<Rightarrow> nat \<Rightarrow> error + nat" where
  "modE a b = (if b = 0 then Inl DivisionByZero else Inr (a mod b))"

text \<open>
  Modelled from the spec: the helpers \<^verbatim>\<open>align\<close>, \<^verbatim>\<open>ALIGN_NPOT\<close> and \<^verbatim>\<open>DIV_ROUND_UP\<close> of
  \<^verbatim>\<open>util/u_math.h\<close> are not under src/. The spec has them "round up to the granule"
  (sections 4.3.3 and 4.3.7) and take a "ceiling" or "round-up division" (4.3.1, 4.3.4, 4.3.7).
  \<^verbatim>\<open>align\<close> is an inline function on bit masks and yields 0 for the alignment 0; the two
  macros divide, and a zero divisor is an error.
\<close>

definition align :: "nat \<Rightarrow> nat \<Rightarrow> nat" where
  "align v a = ((v + a - 1) div a) * a"

definition ALIGN_NPOT :: "nat \<Rightarrow> nat \<Rightarrow> error + nat" where
  "ALIGN_NPOT v a = (if a = 0 then Inl DivisionByZero else Inr (((v + a - 1) div a) * a))"

definition DIV_ROUND_UP :: "nat \<Rightarrow> nat \<Rightarrow> error + nat" where
  "DIV_ROUND_UP a b = (if b = 0 then Inl DivisionByZero else Inr ((a + b - 1) div b))"

subsection \<open>Data model\<close>

text \<open>
  Modelled from the spec: the types of \<^verbatim>\<open>aco_ir.h\<close> are not under src/. Section 3 of the
  spec gives a register class a bank (vector or scalar), a size in allocation units and the
  mark of the "linear" bank; a virtual register (Temp) an identifier and its class; a
  register demand two additive counters. The counters are unbounded integers here.
\<close>

datatype RegType = RegType_sgpr | RegType_vgpr

record RegClass =
  rc_type :: RegType
  rc_size :: nat
  rc_is_linear :: bool

record Temp =
  temp_id :: nat
  regClass :: RegClass

definition type_of_temp :: "Temp \<Rightarrow> RegType" where
  "type_of_temp t = rc_type (regClass t)"

definition size_of_temp :: "Temp \<Rightarrow> nat" where
  "size_of_temp t = rc_size (regClass t)"

record RegisterDemand =
  vgpr :: int
  sgpr :: int

definition RegisterDemand0 :: RegisterDemand where
  "RegisterDemand0 = \<lparr>vgpr = 0, sgpr = 0\<rparr>"

definition demand_add_temp :: "RegisterDemand \<Rightarrow> Temp \<Rightarrow> RegisterDemand" where
  "demand_add_temp d t =
     (if type_of_temp t = RegType_sgpr then d\<lparr>sgpr := sgpr d + int (size_of_temp t)\<rparr>
      else d\<lparr>vgpr := vgpr d + int (size_of_temp t)\<rparr>)"

definition demand_sub_temp :: "RegisterDemand \<Rightarrow> Temp \<Rightarrow> RegisterDemand" where
  "demand_sub_temp d t =
     (if type_of_temp t = RegType_sgpr then d\<lparr>sgpr := sgpr d - int (size_of_temp t)\<rparr>
      else d\<lparr>vgpr := vgpr d - int (size_of_temp t)\<rparr>)"

definition demand_add :: "RegisterDemand \<Rightarrow> RegisterDemand \<Rightarrow> RegisterDemand" where
  "demand_add a b = \<lparr>vgpr = vgpr a + vgpr b, sgpr = sgpr a + sgpr b\<rparr>"

definition demand_sub :: "RegisterDemand \<Rightarrow> RegisterDemand \<Rightarrow> RegisterDemand" where
  "demand_sub a b = \<lparr>vgpr = vgpr a - vgpr b, sgpr = sgpr a - sgpr b\<rparr>"

definition demand_update :: "RegisterDemand \<Rightarrow> RegisterDemand \<Rightarrow> RegisterDemand" where
  "demand_update a b = \<lparr>vgpr = max (vgpr a) (vgpr b), sgpr = max (sgpr a) (sgpr b)\<rparr>"

text \<open>
  Modelled from the spec: the classes Operand and Definition of \<^verbatim>\<open>aco_ir.h\<close> are not under
  src/. Section 3 of the spec gives an operand the flags isKill, isFirstKill and isLateKill
  and the fixed physical register, a definition the flag isKill, a fixed register and a
  hint. A first kill is a kill: setting isFirstKill marks the operand killed, clearing
  isKill clears isFirstKill too (the first pass of section 4.2 "clears all operands' kill
  flags", and the kill-flag soundness property of section 8 has every occurrence of a
  killed register, the first one included, marked isKill).
\<close>

type_synonym PhysReg = nat

definition vcc :: PhysReg where
  "vcc = 106"

definition exec :: PhysReg where
  "exec = 126"

record Operand =
  op_isTemp :: bool
  op_temp :: Temp
  op_isFixed :: bool
  op_physReg :: PhysReg
  op_isLateKill :: bool
  isKill_flag :: bool
  isFirstKill_flag :: bool

definition isFirstKill :: "Operand \<Rightarrow> bool" where
  "isFirstKill op = isFirstKill_flag op"


definition setKill :: "bool \<Rightarrow> Operand \<Rightarrow> Operand" where
  "setKill flag op =
     (if flag then op\<lparr>isKill_flag := True\<rparr>
      else op\<lparr>isKill_flag := False, isFirstKill_flag := False\<rparr>)"

definition setFirstKill :: "bool \<Rightarrow> Operand \<Rightarrow> Operand" where
  "setFirstKill flag op =
     (if flag then op\<lparr>isFirstKill_flag := True, isKill_flag := True\<rparr>
      else op\<lparr>isFirstKill_flag := False\<rparr>)"

definition tempId :: "Operand \<Rightarrow> nat" where
  "tempId op = temp_id (op_temp op)"

record Definition =
  def_isTemp :: bool
  def_temp :: Temp
  def_isFixed :: bool
  def_hasHint :: bool
  def_physReg :: PhysReg
  def_isKill :: bool

datatype aco_opcode = p_phi | p_linear_phi | p_logical_end | other_opcode nat

record Instruction =
  opcode :: aco_opcode
  operands :: "Operand list"
  definitions :: "Definition list"

definition is_phi :: "Instruction \<Rightarrow> bool" where
  "is_phi insn = (opcode insn = p_phi \<or> opcode insn = p_linear_phi)"

record Block =
  index :: nat
  instructions :: "Instruction list"
  logical_preds :: "nat list"
  linear_preds :: "nat list"
  register_demand :: RegisterDemand

text \<open>
  Modelled from the spec: the enumerations of the hardware generation and of the compilation
  progress, the device descriptor and the shader configuration are declared outside src/.
  The source compares the generation with GFX8 and GFX10 and the progress with after_ra.
\<close>

datatype chip_class_t = GFX6 | GFX7 | GFX8 | GFX9 | GFX10 | GFX10_3

fun chip_rank :: "chip_class_t \<Rightarrow> nat" where
  "chip_rank GFX6 = 0"
| "chip_rank GFX7 = 1"
| "chip_rank GFX8 = 2"
| "chip_rank GFX9 = 3"
| "chip_rank GFX10 = 4"
| "chip_rank GFX10_3 = 5"

datatype CompilationProgress = after_isel | after_spilling | after_ra

fun progress_rank :: "CompilationProgress \<Rightarrow> nat" where
  "progress_rank after_isel = 0"
| "progress_rank after_spilling = 1"
| "progress_rank after_ra = 2"

record DeviceInfo =
  lds_encoding_granule :: nat
  lds_alloc_granule :: nat
  lds_limit :: nat
  physical_sgprs :: nat
  physical_vgprs :: nat
  vgpr_limit :: nat
  sgpr_limit :: nat
  sgpr_alloc_granule :: nat
  vgpr_alloc_granule :: nat
  max_wave64_per_simd :: nat
  simd_per_cu :: nat
  xnack_enabled :: bool

record ac_shader_config =
  num_shared_vgprs :: nat
  lds_size :: nat

record Program =
  blocks :: "Block list"
  temp_rc :: "nat \<Rightarrow> RegClass"
  dev :: DeviceInfo
  config :: ac_shader_config
  chip_class :: chip_class_t
  progress :: CompilationProgress
  needs_flat_scr :: bool
  needs_vcc :: bool
  wgp_mode :: bool
  wave_size :: nat
  workgroup_size :: nat
  min_waves :: nat
  max_waves :: nat
  num_waves :: nat
  max_reg_demand :: RegisterDemand

subsection \<open>Occupancy: reserved registers, allocation sizes, wave counts\<close>

definition get_extra_sgprs :: "Program \<Rightarrow> error + nat" where
  "get_extra_sgprs program =
     (if chip_rank (chip_class program) \<ge> chip_rank GFX10 then
        bindE (assertE (\<not> needs_flat_scr program)) (\<lambda>_.
        bindE (assertE (\<not> xnack_enabled (dev program))) (\<lambda>_.
        Inr 0))
      else if chip_rank (chip_class program) \<ge> chip_rank GFX8 then
        (if needs_flat_scr program then Inr 6
         else if xnack_enabled (dev program) then Inr 4
         else if needs_vcc program then Inr 2
         else Inr 0)
      else
        bindE (assertE (\<not> xnack_enabled (dev program))) (\<lambda>_.
        if needs_flat_scr program then Inr 4
        else if needs_vcc program then Inr 2
        else Inr 0))"

definition get_sgpr_alloc :: "Program \<Rightarrow> nat \<Rightarrow> error + nat" where
  "get_sgpr_alloc program addressable_sgprs =
     bindE (get_extra_sgprs program) (\<lambda>extra.
     let sgprs = u16 (u16 addressable_sgprs + extra);
         granule = u16 (sgpr_alloc_granule (dev program)) in
     bindE (ALIGN_NPOT (max sgprs granule) granule) (\<lambda>r.
     Inr (u16 r)))"

definition get_vgpr_alloc :: "Program \<Rightarrow> nat \<Rightarrow> error + nat" where
  "get_vgpr_alloc program addressable_vgprs =
     bindE (assertE (u16 addressable_vgprs \<le> vgpr_limit (dev program))) (\<lambda>_.
     let granule = u16 (vgpr_alloc_granule (dev program)) in
     Inr (u16 (align (max (u16 addressable_vgprs) granule) granule)))"

definition round_down :: "nat \<Rightarrow> nat \<Rightarrow> error + nat" where
  "round_down a b = bindE (modE (u32 a) (u32 b)) (\<lambda>r. Inr (u32 a - r))"

definition get_addr_sgpr_from_waves :: "Program \<Rightarrow> nat \<Rightarrow> error + nat" where
  "get_addr_sgpr_from_waves program waves =
     bindE (divE (physical_sgprs (dev program)) (u16 waves)) (\<lambda>q.
     let sgprs = u16 (min q 128) in
     bindE (round_down sgprs (sgpr_alloc_granule (dev program))) (\<lambda>r.
     let sgprs = u16 r in
     bindE (get_extra_sgprs program) (\<lambda>extra.
     let sgprs = u16_of_int (int sgprs - int extra) in
     Inr (min sgprs (sgpr_limit (dev program))))))"

definition get_addr_vgpr_from_waves :: "Program \<Rightarrow> nat \<Rightarrow> error + nat" where
  "get_addr_vgpr_from_waves program waves =
     bindE (divE (physical_vgprs (dev program)) (u16 waves)) (\<lambda>q.
     let vgprs = u16_of_int (int q AND NOT (int (vgpr_alloc_granule (dev program)) - 1));
         vgprs = u16_of_int (int vgprs - int (num_shared_vgprs (config program) div 2)) in
     Inr (min vgprs (vgpr_limit (dev program))))"

definition calc_waves_per_workgroup :: "Program \<Rightarrow> error + nat" where
  "calc_waves_per_workgroup program =
     (let workgroup_size' =
        (if workgroup_size program = UINT_MAX then wave_size program
         else workgroup_size program) in
      divE (u32 (align workgroup_size' (wave_size program))) (wave_size program))"

definition calc_min_waves :: "Program \<Rightarrow> error + Program" where
  "calc_min_waves program =
     bindE (calc_waves_per_workgroup program) (\<lambda>waves_per_workgroup.
     let simd_per_cu_wgp = u32 (simd_per_cu (dev program) * (if wgp_mode program then 2 else 1)) in
     bindE (DIV_ROUND_UP waves_per_workgroup simd_per_cu_wgp) (\<lambda>r.
     Inr (program\<lparr>min_waves := u16 r\<rparr>)))"

text \<open>
  The wave-count bound from the workgroup size and the LDS use, the part of
  \<^verbatim>\<open>update_vgpr_sgpr_demand\<close> under "adjust max_waves for workgroup and LDS limits":
  the new value of \<^verbatim>\<open>program->max_waves\<close>.
\<close>

definition adjust_max_waves :: "Program \<Rightarrow> nat \<Rightarrow> nat \<Rightarrow> nat \<Rightarrow> error + nat" where
  "adjust_max_waves program max_waves_per_simd simd_per_cu_wgp lds_limit' =
     bindE (calc_waves_per_workgroup program) (\<lambda>waves_per_workgroup.
     bindE (divE (u32 (max_waves_per_simd * simd_per_cu_wgp)) waves_per_workgroup)
       (\<lambda>workgroups_per_cu_wgp.
     bindE
       (if lds_size (config program) \<noteq> 0 then
          (let lds = u32 (lds_size (config program) * lds_encoding_granule (dev program));
               lds = u32 (align lds (lds_alloc_granule (dev program))) in
           bindE (divE lds_limit' lds) (\<lambda>q. Inr (min workgroups_per_cu_wgp q)))
        else Inr workgroups_per_cu_wgp)
       (\<lambda>workgroups_per_cu_wgp.
     let workgroups_per_cu_wgp =
       (if waves_per_workgroup > 1 \<and> chip_rank (chip_class program) < chip_rank GFX10
        then min workgroups_per_cu_wgp 16 else workgroups_per_cu_wgp) in
     bindE (DIV_ROUND_UP (u32 (workgroups_per_cu_wgp * waves_per_workgroup)) simd_per_cu_wgp)
       (\<lambda>r.
     Inr (min (u16 max_waves_per_simd) (u16 r))))))"

definition update_vgpr_sgpr_demand :: "Program \<Rightarrow> RegisterDemand \<Rightarrow> error + Program" where
  "update_vgpr_sgpr_demand program new_demand =
     bindE (divE 64 (wave_size program)) (\<lambda>q.
     let max_waves_per_simd = u32 (max_wave64_per_simd (dev program) * q);
         simd_per_cu_wgp = u32 (simd_per_cu (dev program) * (if wgp_mode program then 2 else 1));
         lds_limit' = (if wgp_mode program then u32 (lds_limit (dev program) * 2)
                       else lds_limit (dev program)) in
     bindE (assertE (min_waves program \<ge> 1)) (\<lambda>_.
     bindE (get_addr_sgpr_from_waves program (min_waves program)) (\<lambda>sgpr_limit'.
     bindE (get_addr_vgpr_from_waves program (min_waves program)) (\<lambda>vgpr_limit'.
     if vgpr new_demand > int vgpr_limit' \<or> sgpr new_demand > int sgpr_limit' then
       Inr (program\<lparr>num_waves := 0, max_reg_demand := new_demand\<rparr>)
     else
       bindE (get_sgpr_alloc program (u16_of_int (sgpr new_demand))) (\<lambda>sgpr_alloc.
       bindE (divE (physical_sgprs (dev program)) sgpr_alloc) (\<lambda>waves_s.
       bindE (get_vgpr_alloc program (u16_of_int (vgpr new_demand))) (\<lambda>vgpr_alloc.
       let vgpr_demand = u16 (vgpr_alloc + num_shared_vgprs (config program) div 2) in
       bindE (divE (physical_vgprs (dev program)) vgpr_demand) (\<lambda>waves_v.
       let num_waves' = min (u16 waves_s) (u16 waves_v) in
       bindE (adjust_max_waves program max_waves_per_simd simd_per_cu_wgp lds_limit')
         (\<lambda>max_waves'.
       let num_waves' = min num_waves' max_waves' in
       bindE (get_addr_vgpr_from_waves program num_waves') (\<lambda>v.
       bindE (get_addr_sgpr_from_waves program num_waves') (\<lambda>s.
       Inr (program\<lparr>num_waves := num_waves', max_waves := max_waves',
              max_reg_demand := \<lparr>vgpr = int v, sgpr = int s\<rparr>\<rparr>))))))))))))"
subsection \<open>Incremental demand utilities\<close>

definition get_live_changes :: "Instruction \<Rightarrow> RegisterDemand" where
  "get_live_changes instr =
     (let changes = fold (\<lambda>def changes.
            if \<not> def_isTemp def \<or> def_isKill def then changes
            else demand_add_temp changes (def_temp def))
          (definitions instr) RegisterDemand0
      in fold (\<lambda>op changes.
            if \<not> op_isTemp op \<or> \<not> isFirstKill op then changes
            else demand_sub_temp changes (op_temp op))
          (operands instr) changes)"

definition get_temp_registers :: "Instruction \<Rightarrow> RegisterDemand" where
  "get_temp_registers instr =
     (let temp_registers = fold (\<lambda>def temp_registers.
            if \<not> def_isTemp def then temp_registers
            else if def_isKill def then demand_add_temp temp_registers (def_temp def)
            else temp_registers)
          (definitions instr) RegisterDemand0
      in fold (\<lambda>op temp_registers.
            if op_isTemp op \<and> op_isLateKill op \<and> isFirstKill op
            then demand_add_temp temp_registers (op_temp op)
            else temp_registers)
          (operands instr) temp_registers)"

definition get_demand_before ::
  "RegisterDemand \<Rightarrow> Instruction \<Rightarrow> Instruction option \<Rightarrow> RegisterDemand" where
  "get_demand_before demand instr instr_before =
     (let demand = demand_sub demand (get_live_changes instr);
          demand = demand_sub demand (get_temp_registers instr)
      in case instr_before of
           Some before \<Rightarrow> demand_add demand (get_temp_registers before)
         | None \<Rightarrow> demand)"

subsection \<open>The per-block step of the liveness analysis\<close>

text \<open>
  The result of the analysis (\<^verbatim>\<open>struct live\<close>): per block the live-out set and the
  demand recorded at each instruction. A set of register ids (\<^verbatim>\<open>IDSet\<close>) is a set of
  naturals; the code iterates it in increasing order.
\<close>

record live =
  live_out :: "nat set list"
  live_register_demand :: "RegisterDemand list list"

text \<open>
  The local state of the backward scan of \<^verbatim>\<open>process_live_temps_per_block\<close>: the running
  live set \<^verbatim>\<open>live\<close>, the running demand \<^verbatim>\<open>new_demand\<close>, the entry
  \<^verbatim>\<open>register_demand[idx]\<close> of the instruction at hand, \<^verbatim>\<open>block_register_demand\<close> and
  \<^verbatim>\<open>program->needs_vcc\<close>.
\<close>

record scan =
  live_set :: "nat set"
  new_demand :: RegisterDemand
  snapshot :: RegisterDemand
  block_register_demand :: RegisterDemand
  vcc_seen :: bool

text \<open>The body of the KILL loop, for one definition.\<close>

definition process_definition :: "Definition \<Rightarrow> scan \<Rightarrow> Definition \<times> scan" where
  "process_definition definition st =
     (if \<not> def_isTemp definition then (definition, st)
      else
        let st = (if (def_isFixed definition \<or> def_hasHint definition)
                     \<and> def_physReg definition = vcc
                  then st\<lparr>vcc_seen := True\<rparr> else st);
            temp = def_temp definition;
            n = (temp_id temp \<in> live_set st);
            st = st\<lparr>live_set := live_set st - {temp_id temp}\<rparr>
        in if n then (definition\<lparr>def_isKill := False\<rparr>,
                      st\<lparr>new_demand := demand_sub_temp (new_demand st) temp\<rparr>)
           else (definition\<lparr>def_isKill := True\<rparr>,
                 st\<lparr>snapshot := demand_add_temp (snapshot st) temp\<rparr>))"

fun process_definitions :: "Definition list \<Rightarrow> scan \<Rightarrow> Definition list \<times> scan" where
  "process_definitions [] st = ([], st)"
| "process_definitions (definition # rest) st =
     (let (definition', st') = process_definition definition st;
          (rest', st'') = process_definitions rest st'
      in (definition' # rest', st''))"

text \<open>
  The GEN loop over the operands, from index i on: the operand at i is the head of the list,
  the operands at j > i are its tail, which the inner loop over j rewrites.
\<close>

definition mark_later_operand :: "Operand \<Rightarrow> Operand \<Rightarrow> Operand" where
  "mark_later_operand operand later =
     (if op_isTemp later \<and> tempId later = tempId operand
      then setKill True (setFirstKill False later) else later)"

fun process_operands :: "Operand list \<Rightarrow> scan \<Rightarrow> Operand list \<times> scan" where
  "process_operands [] st = ([], st)"
| "process_operands (operand # rest) st =
     (if \<not> op_isTemp operand then
        (let (rest', st') = process_operands rest st in (operand # rest', st'))
      else
        let st = (if op_isFixed operand \<and> op_physReg operand = vcc
                  then st\<lparr>vcc_seen := True\<rparr> else st);
            temp = op_temp operand;
            inserted = (temp_id temp \<notin> live_set st);
            st = st\<lparr>live_set := insert (temp_id temp) (live_set st)\<rparr>
        in if inserted then
             (let operand = setFirstKill True operand;
                  rest = map (mark_later_operand operand) rest;
                  st = (if op_isLateKill operand
                        then st\<lparr>snapshot := demand_add_temp (snapshot st) temp\<rparr> else st);
                  st = st\<lparr>new_demand := demand_add_temp (new_demand st) temp\<rparr>;
                  (rest', st') = process_operands rest st
              in (operand # rest', st'))
           else
             (let (rest', st') = process_operands rest st in (operand # rest', st')))"

text \<open>
  One iteration of the backward loop over the instructions that are not phis; phi_ops is
  \<^verbatim>\<open>phi_sgpr_ops[block->index]\<close>.
\<close>

definition process_instruction :: "nat \<Rightarrow> Instruction \<Rightarrow> scan \<Rightarrow> Instruction \<times> scan" where
  "process_instruction phi_ops insn st =
     (let st = st\<lparr>snapshot := \<lparr>vgpr = vgpr (new_demand st), sgpr = sgpr (new_demand st)\<rparr>\<rparr>;
          (definitions', st) = process_definitions (definitions insn) st;
          (insn, st) =
            (if opcode insn = p_logical_end then
               (insn\<lparr>definitions := definitions'\<rparr>,
                st\<lparr>new_demand := (new_demand st)\<lparr>sgpr := sgpr (new_demand st) + int phi_ops\<rparr>\<rparr>)
             else
               (let (operands', st) =
                      process_operands (map (setKill False) (operands insn)) st
                in (insn\<lparr>definitions := definitions', operands := operands'\<rparr>, st)))
      in (insn, st\<lparr>block_register_demand :=
                     demand_update (block_register_demand st) (snapshot st)\<rparr>))"

text \<open>
  The backward loop, on the instructions in reverse order (last instruction first). It
  stops at the first phi and returns the instructions it went through (in reverse order),
  their entries of \<^verbatim>\<open>register_demand\<close>, and the instructions from \<^verbatim>\<open>idx\<close> down to 0.
\<close>

fun scan_instructions ::
  "nat \<Rightarrow> Instruction list \<Rightarrow> scan
     \<Rightarrow> Instruction list \<times> RegisterDemand list \<times> Instruction list \<times> scan" where
  "scan_instructions phi_ops [] st = ([], [], [], st)"
| "scan_instructions phi_ops (insn # rest) st =
     (if is_phi insn then ([], [], insn # rest, st)
      else
        let (insn', st') = process_instruction phi_ops insn st;
            (done, demands, phis, st'') = scan_instructions phi_ops rest st'
        in (insn' # done, snapshot st' # demands, phis, st''))"

text \<open>The loop "handle phi definitions", from \<^verbatim>\<open>idx\<close> down to 0.\<close>

fun process_phi_definitions ::
  "Instruction list \<Rightarrow> scan \<Rightarrow> error + (Instruction list \<times> scan)" where
  "process_phi_definitions [] st = Inr ([], st)"
| "process_phi_definitions (insn # rest) st =
     bindE (assertE (is_phi insn \<and> length (definitions insn) = 1)) (\<lambda>_.
     let definition = hd (definitions insn) in
     if \<not> def_isTemp definition then
       bindE (assertE (def_isFixed definition \<and> def_physReg definition = exec)) (\<lambda>_.
       bindE (process_phi_definitions rest st) (\<lambda>(rest', st').
       Inr (insn # rest', st')))
     else
       let st = (if (def_isFixed definition \<or> def_hasHint definition)
                    \<and> def_physReg definition = vcc
                 then st\<lparr>vcc_seen := True\<rparr> else st);
           temp = def_temp definition;
           n = (temp_id temp \<in> live_set st);
           st = st\<lparr>live_set := live_set st - {temp_id temp}\<rparr>;
           definition = (if n then definition\<lparr>def_isKill := False\<rparr>
                         else definition\<lparr>def_isKill := True\<rparr>)
       in bindE (process_phi_definitions rest st) (\<lambda>(rest', st').
          Inr (insn\<lparr>definitions := [definition]\<rparr> # rest', st')))"

text \<open>
  The state shared with the driver that the two loops over the predecessors write: the
  stored live-out sets, the worklist, \<^verbatim>\<open>phi_sgpr_ops\<close> and \<^verbatim>\<open>program->needs_vcc\<close>.
\<close>

record pred_state =
  ps_live_out :: "nat set list"
  ps_worklist :: "nat set"
  ps_phi_sgpr_ops :: "nat list"
  ps_needs_vcc :: bool

fun foldE :: "('a \<Rightarrow> 's \<Rightarrow> error + 's) \<Rightarrow> 'a list \<Rightarrow> 's \<Rightarrow> error + 's" where
  "foldE f [] s = Inr s"
| "foldE f (x # xs) s = bindE (f x s) (foldE f xs)"

text \<open>The body of "merge the live-ins into the live-out sets", for one predecessor.\<close>

definition merge_into_pred :: "nat \<Rightarrow> nat \<Rightarrow> pred_state \<Rightarrow> error + pred_state" where
  "merge_into_pred t pred_idx ps =
     (if pred_idx < length (ps_live_out ps) then
        (let inserted = (t \<notin> ps_live_out ps ! pred_idx);
             ps = ps\<lparr>ps_live_out :=
                       (ps_live_out ps)[pred_idx := insert t (ps_live_out ps ! pred_idx)]\<rparr>
         in Inr (if inserted then ps\<lparr>ps_worklist := insert pred_idx (ps_worklist ps)\<rparr>
                 else ps))
      else Inl OutOfBounds)"

definition merge_live_in :: "Program \<Rightarrow> Block \<Rightarrow> nat \<Rightarrow> pred_state \<Rightarrow> error + pred_state" where
  "merge_live_in program block t ps =
     (let rc = temp_rc program t;
          preds = (if rc_is_linear rc then linear_preds block else logical_preds block)
      in foldE (merge_into_pred t) preds ps)"

text \<open>
  The body of the loop over \<^verbatim>\<open>i < preds.size()\<close> of "handle phi operands", for the
  predecessor \<^verbatim>\<open>preds[i]\<close> and the operand \<^verbatim>\<open>insn->operands[i]\<close>; logical tells that
  the instruction is a \<^verbatim>\<open>p_phi\<close>, live is the running live set of the block.
\<close>

definition process_phi_operand ::
  "bool \<Rightarrow> nat set \<Rightarrow> nat \<Rightarrow> Operand \<Rightarrow> pred_state \<Rightarrow> error + (Operand \<times> pred_state)" where
  "process_phi_operand logical live pred operand ps =
     (if \<not> op_isTemp operand then Inr (operand, ps)
      else
        let ps = (if op_isFixed operand \<and> op_physReg operand = vcc
                  then ps\<lparr>ps_needs_vcc := True\<rparr> else ps)
        in if pred < length (ps_live_out ps) then
             (let inserted = (tempId operand \<notin> ps_live_out ps ! pred);
                  ps = ps\<lparr>ps_live_out :=
                            (ps_live_out ps)[pred := insert (tempId operand) (ps_live_out ps ! pred)]\<rparr>
              in bindE
                   (if inserted then
                      (let ps = ps\<lparr>ps_worklist := insert pred (ps_worklist ps)\<rparr>
                       in if logical \<and> type_of_temp (op_temp operand) = RegType_sgpr then
                            (if pred < length (ps_phi_sgpr_ops ps) then
                               Inr (ps\<lparr>ps_phi_sgpr_ops := (ps_phi_sgpr_ops ps)
                                      [pred := u16 (ps_phi_sgpr_ops ps ! pred
                                                    + size_of_temp (op_temp operand))]\<rparr>)
                             else Inl OutOfBounds)
                          else Inr ps)
                    else Inr ps)
                   (\<lambda>ps. Inr (setKill (tempId operand \<notin> live) operand, ps)))
           else Inl OutOfBounds)"

text \<open>
  The loop itself, over the predecessors and the operands from index i on; a phi with fewer
  operands than the block has predecessors is read out of bounds.
\<close>

fun process_phi_operands ::
  "bool \<Rightarrow> nat set \<Rightarrow> nat list \<Rightarrow> Operand list \<Rightarrow> pred_state
     \<Rightarrow> error + (Operand list \<times> pred_state)" where
  "process_phi_operands logical live [] ops ps = Inr (ops, ps)"
| "process_phi_operands logical live (pred # preds) [] ps = Inl OutOfBounds"
| "process_phi_operands logical live (pred # preds) (operand # ops) ps =
     bindE (process_phi_operand logical live pred operand ps) (\<lambda>(operand', ps').
     bindE (process_phi_operands logical live preds ops ps') (\<lambda>(ops', ps'').
     Inr (operand' # ops', ps'')))"

definition process_phi :: "Block \<Rightarrow> nat set \<Rightarrow> Instruction \<Rightarrow> pred_state
     \<Rightarrow> error + (Instruction \<times> pred_state)" where
  "process_phi block live insn ps =
     bindE (assertE (is_phi insn)) (\<lambda>_.
     let preds = (if opcode insn = p_phi then logical_preds block else linear_preds block) in
     bindE (process_phi_operands (opcode insn = p_phi) live preds (operands insn) ps)
       (\<lambda>(ops', ps').
     Inr (insn\<lparr>operands := ops'\<rparr>, ps')))"

fun process_phis :: "Block \<Rightarrow> nat set \<Rightarrow> Instruction list \<Rightarrow> pred_state
     \<Rightarrow> error + (Instruction list \<times> pred_state)" where
  "process_phis block live [] ps = Inr ([], ps)"
| "process_phis block live (insn # rest) ps =
     bindE (process_phi block live insn ps) (\<lambda>(insn', ps').
     bindE (process_phis block live rest ps') (\<lambda>(rest', ps'').
     Inr (insn' # rest', ps'')))"

text \<open>
  The state of the driver: the program, the result under construction, the worklist,
  \<^verbatim>\<open>phi_sgpr_ops\<close> and the driver's \<^verbatim>\<open>new_demand\<close>.
\<close>

record lv_state =
  lv_program :: Program
  lv_lives :: live
  lv_worklist :: "nat set"
  lv_phi_sgpr_ops :: "nat list"
  lv_new_demand :: RegisterDemand

text \<open>The initial running demand: the registers of the live-out set, by their classes.\<close>

definition initial_demand :: "Program \<Rightarrow> nat set \<Rightarrow> RegisterDemand" where
  "initial_demand prog live =
     fold (\<lambda>t new_demand. demand_add_temp new_demand \<lparr>temp_id = t, regClass = temp_rc prog t\<rparr>)
       (sorted_list_of_set live) RegisterDemand0"

text \<open>
  \<^verbatim>\<open>process_live_temps_per_block\<close> for the block at position block_idx of
  \<^verbatim>\<open>program->blocks\<close> (the caller passes \<^verbatim>\<open>&program->blocks[block_idx]\<close>). The vectors of
  the result and \<^verbatim>\<open>phi_sgpr_ops\<close> are indexed with \<^verbatim>\<open>block->index\<close>.
\<close>

definition process_live_temps_per_block :: "lv_state \<Rightarrow> nat \<Rightarrow> error + lv_state" where
  "process_live_temps_per_block s block_idx =
     (let prog = lv_program s;
          block = blocks prog ! block_idx;
          bi = index block
      in if \<not> (bi < length (live_register_demand (lv_lives s)) \<and> bi < length (live_out (lv_lives s))
                \<and> bi < length (lv_phi_sgpr_ops s))
         then Inl OutOfBounds
         else
           let live0 = live_out (lv_lives s) ! bi;
               new_demand0 = initial_demand prog live0;
               new_demand0 = new_demand0\<lparr>sgpr := sgpr new_demand0 - int (lv_phi_sgpr_ops s ! bi)\<rparr>;
               st = \<lparr>live_set = live0, new_demand = new_demand0, snapshot = RegisterDemand0,
                     block_register_demand = RegisterDemand0, vcc_seen = needs_vcc prog\<rparr>;
               (done, demands, phis, st) =
                 scan_instructions (lv_phi_sgpr_ops s ! bi) (rev (instructions block)) st;
               block_demand = demand_update (block_register_demand st) (new_demand st)
           in bindE (process_phi_definitions phis st) (\<lambda>(phis, st).
              let ps = \<lparr>ps_live_out = live_out (lv_lives s), ps_worklist = lv_worklist s,
                        ps_phi_sgpr_ops = lv_phi_sgpr_ops s, ps_needs_vcc = vcc_seen st\<rparr> in
              bindE (foldE (merge_live_in prog block) (sorted_list_of_set (live_set st)) ps)
                (\<lambda>ps.
              bindE (process_phis block (live_set st) phis ps) (\<lambda>(phis, ps).
              bindE (assertE (bi \<noteq> 0 \<or> (new_demand st = RegisterDemand0 \<and> live_set st = {})))
                (\<lambda>_.
              let block = block\<lparr>instructions := rev phis @ rev done,
                                register_demand :=
                                  (if progress_rank (progress prog) < progress_rank after_ra
                                   then block_demand else register_demand block)\<rparr>;
                  demand_vector = replicate (length phis) (new_demand st) @ rev demands
              in Inr (s\<lparr>lv_program := prog\<lparr>blocks := (blocks prog)[block_idx := block],
                                         needs_vcc := ps_needs_vcc ps\<rparr>,
                        lv_lives := \<lparr>live_out = ps_live_out ps,
                                  live_register_demand =
                                    (live_register_demand (lv_lives s))[bi := demand_vector]\<rparr>,
                        lv_worklist := ps_worklist ps,
                        lv_phi_sgpr_ops := ps_phi_sgpr_ops ps\<rparr>))))))"

subsection \<open>The driver\<close>

definition initial_state :: "Program \<Rightarrow> lv_state" where
  "initial_state prog =
     \<lparr>lv_program = prog\<lparr>needs_vcc := False\<rparr>,
      lv_lives = \<lparr>live_out = replicate (length (blocks prog)) {},
               live_register_demand = replicate (length (blocks prog)) []\<rparr>,
      lv_worklist = set (map index (blocks prog)),
      lv_phi_sgpr_ops = replicate (length (blocks prog)) 0,
      lv_new_demand = RegisterDemand0\<rparr>"

text \<open>The body of the worklist loop: take the highest pending block and process it.\<close>

definition worklist_step :: "lv_state \<Rightarrow> error + lv_state" where
  "worklist_step s =
     (let block_idx = Max (lv_worklist s);
          s = s\<lparr>lv_worklist := lv_worklist s - {block_idx}\<rparr>
      in if block_idx < length (blocks (lv_program s)) then
           bindE (process_live_temps_per_block s block_idx) (\<lambda>s.
           Inr (s\<lparr>lv_new_demand :=
                    demand_update (lv_new_demand s)
                      (register_demand (blocks (lv_program s) ! block_idx))\<rparr>))
         else Inl OutOfBounds)"

text \<open>The worklist loop; a run that does not end has the value None.\<close>

partial_function (option) worklist_loop :: "lv_state \<Rightarrow> (error + lv_state) option" where
  "worklist_loop s =
     (if lv_worklist s = {} then Some (Inr s)
      else case worklist_step s of
             Inl e \<Rightarrow> Some (Inl e)
           | Inr s' \<Rightarrow> worklist_loop s')"

text \<open>The same loop cut off after a number of per-block steps.\<close>

fun worklist_loop_bounded :: "nat \<Rightarrow> lv_state \<Rightarrow> (error + lv_state) option" where
  "worklist_loop_bounded 0 s = (if lv_worklist s = {} then Some (Inr s) else None)"
| "worklist_loop_bounded (Suc n) s =
     (if lv_worklist s = {} then Some (Inr s)
      else case worklist_step s of
             Inl e \<Rightarrow> Some (Inl e)
           | Inr s' \<Rightarrow> worklist_loop_bounded n s')"

definition live_var_analysis :: "Program \<Rightarrow> (error + live \<times> Program) option" where
  "live_var_analysis prog =
     (case worklist_loop (initial_state prog) of
        None \<Rightarrow> None
      | Some (Inl e) \<Rightarrow> Some (Inl e)
      | Some (Inr s) \<Rightarrow>
          (if progress_rank (progress (lv_program s)) < progress_rank after_ra then
             Some (bindE (update_vgpr_sgpr_demand (lv_program s) (lv_new_demand s))
                     (\<lambda>prog'. Inr (lv_lives s, prog')))
           else Some (Inr (lv_lives s, lv_program s))))"

subsection \<open>Predicates and example data for the occupancy theorems\<close>

text \<open>The three tiers the source tells apart: before GFX8 (0), GFX8 and GFX9 (1), GFX10 on (2).\<close>

definition generation_tier :: "Program \<Rightarrow> nat" where
  "generation_tier program =
     (if chip_rank (chip_class program) \<ge> chip_rank GFX10 then 2
      else if chip_rank (chip_class program) \<ge> chip_rank GFX8 then 1 else 0)"

text \<open>The conditions \<^verbatim>\<open>get_extra_sgprs\<close> asserts, per tier.\<close>

definition extra_sgprs_asserts :: "Program \<Rightarrow> bool" where
  "extra_sgprs_asserts program =
     (if generation_tier program = 2
      then \<not> needs_flat_scr program \<and> \<not> xnack_enabled (dev program)
      else if generation_tier program = 1 then True
      else \<not> xnack_enabled (dev program))"

text \<open>A GFX9-like device and a program without blocks that has used VCC.\<close>

definition example_device :: DeviceInfo where
  "example_device = \<lparr>lds_encoding_granule = 512, lds_alloc_granule = 512, lds_limit = 65536,
     physical_sgprs = 800, physical_vgprs = 256, vgpr_limit = 256, sgpr_limit = 102,
     sgpr_alloc_granule = 16, vgpr_alloc_granule = 4, max_wave64_per_simd = 10,
     simd_per_cu = 4, xnack_enabled = False\<rparr>"

definition example_program :: Program where
  "example_program = \<lparr>blocks = [],
     temp_rc = (\<lambda>_. \<lparr>rc_type = RegType_sgpr, rc_size = 1, rc_is_linear = True\<rparr>),
     dev = example_device, config = \<lparr>num_shared_vgprs = 0, lds_size = 0\<rparr>, chip_class = GFX9,
     progress = after_isel, needs_flat_scr = False, needs_vcc = True, wgp_mode = False,
     wave_size = 64, workgroup_size = 64, min_waves = 1, max_waves = 0, num_waves = 0,
     max_reg_demand = RegisterDemand0\<rparr>"

text \<open>
  The first three local values of \<^verbatim>\<open>update_vgpr_sgpr_demand\<close>: the hardware maximum of waves
  per SIMD, the SIMDs of a scheduling domain and its LDS limit.
\<close>

definition max_waves_per_simd_of :: "Program \<Rightarrow> nat" where
  "max_waves_per_simd_of p = u32 (max_wave64_per_simd (dev p) * (64 div wave_size p))"

definition simd_per_cu_wgp_of :: "Program \<Rightarrow> nat" where
  "simd_per_cu_wgp_of p = u32 (simd_per_cu (dev p) * (if wgp_mode p then 2 else 1))"

definition lds_limit_of :: "Program \<Rightarrow> nat" where
  "lds_limit_of p = (if wgp_mode p then u32 (lds_limit (dev p) * 2) else lds_limit (dev p))"

text \<open>The example program with an LDS use of 200 * 512 bytes, more than the device has.\<close>

definition lds_overflow_program :: Program where
  "lds_overflow_program = example_program\<lparr>config := \<lparr>num_shared_vgprs = 0, lds_size = 200\<rparr>\<rparr>"

text \<open>
  A GFX10.3 device in wave64 mode (vgpr granule 8), and the example program on it with 8
  shared vgprs.
\<close>

definition gfx10_3_device :: DeviceInfo where
  "gfx10_3_device = \<lparr>lds_encoding_granule = 512, lds_alloc_granule = 512, lds_limit = 65536,
     physical_sgprs = 5120, physical_vgprs = 512, vgpr_limit = 256, sgpr_limit = 108,
     sgpr_alloc_granule = 128, vgpr_alloc_granule = 8, max_wave64_per_simd = 16,
     simd_per_cu = 2, xnack_enabled = False\<rparr>"

definition shared_vgprs_program :: Program where
  "shared_vgprs_program = example_program\<lparr>dev := gfx10_3_device,
     config := \<lparr>num_shared_vgprs = 8, lds_size = 0\<rparr>, chip_class := GFX10_3\<rparr>"

subsection \<open>Liveness as sets: what the per-block step computes\<close>

definition def_ids :: "Definition list \<Rightarrow> nat set" where
  "def_ids ds = {temp_id (def_temp d) | d. d \<in> set ds \<and> def_isTemp d}"

definition use_ids :: "Operand list \<Rightarrow> nat set" where
  "use_ids os = {tempId operand | operand. operand \<in> set os \<and> op_isTemp operand}"

definition scan_start :: "lv_state \<Rightarrow> nat \<Rightarrow> scan" where
  "scan_start s block_idx =
     (let prog = lv_program s;
          bi = index (blocks prog ! block_idx);
          live0 = live_out (lv_lives s) ! bi;
          new_demand0 = initial_demand prog live0
      in \<lparr>live_set = live0,
          new_demand = new_demand0\<lparr>sgpr := sgpr new_demand0 - int (lv_phi_sgpr_ops s ! bi)\<rparr>,
          snapshot = RegisterDemand0, block_register_demand = RegisterDemand0,
          vcc_seen = needs_vcc prog\<rparr>)"

definition pred_start :: "lv_state \<Rightarrow> bool \<Rightarrow> pred_state" where
  "pred_start s v = \<lparr>ps_live_out = live_out (lv_lives s), ps_worklist = lv_worklist s,
                      ps_phi_sgpr_ops = lv_phi_sgpr_ops s, ps_needs_vcc = v\<rparr>"

definition live_before :: "Instruction \<Rightarrow> nat set \<Rightarrow> nat set" where
  "live_before insn L =
     (L - def_ids (definitions insn))
     \<union> (if opcode insn = p_logical_end then {} else use_ids (operands insn))"

text \<open>The live set when the backward scan has gone through a list of instructions.\<close>

fun live_through :: "Instruction list \<Rightarrow> nat set \<Rightarrow> nat set" where
  "live_through [] L = L"
| "live_through (insn # rest) L = (if is_phi insn then L else live_through rest (live_before insn L))"

text \<open>The registers the phis at the top of a block define.\<close>

definition phi_def_ids :: "Instruction list \<Rightarrow> nat set" where
  "phi_def_ids phis = (\<Union>insn \<in> set phis. def_ids (definitions insn))"

definition preds_of_temp :: "Program \<Rightarrow> Block \<Rightarrow> nat \<Rightarrow> nat list" where
  "preds_of_temp prog block t =
     (if rc_is_linear (temp_rc prog t) then linear_preds block else logical_preds block)"

definition phi_uses :: "nat list \<Rightarrow> Operand list \<Rightarrow> nat \<Rightarrow> nat set" where
  "phi_uses preds ops q =
     {tempId operand | operand. (q, operand) \<in> set (zip preds ops) \<and> op_isTemp operand}"

definition phi_preds :: "Block \<Rightarrow> Instruction \<Rightarrow> nat list" where
  "phi_preds block insn =
     (if opcode insn = p_phi then logical_preds block else linear_preds block)"

definition pred_grow :: "pred_state \<Rightarrow> pred_state \<Rightarrow> bool" where
  "pred_grow ps ps' =
     (length (ps_live_out ps') = length (ps_live_out ps)
      \<and> length (ps_phi_sgpr_ops ps') = length (ps_phi_sgpr_ops ps)
      \<and> (\<forall>q. ps_live_out ps ! q \<subseteq> ps_live_out ps' ! q)
      \<and> ps_worklist ps \<subseteq> ps_worklist ps'
      \<and> ps_worklist ps' \<subseteq> ps_worklist ps \<union> {..<length (ps_live_out ps)}
      \<and> (\<forall>q. ps_live_out ps' ! q \<noteq> ps_live_out ps ! q \<or> ps_phi_sgpr_ops ps' ! q \<noteq> ps_phi_sgpr_ops ps ! q
             \<longrightarrow> q \<in> ps_worklist ps'))"

definition phis_uses :: "Block \<Rightarrow> Instruction list \<Rightarrow> nat \<Rightarrow> nat set" where
  "phis_uses block phis q =
     (\<Union>insn \<in> set phis. phi_uses (phi_preds block insn) (operands insn) q)"

definition block_phis :: "Block \<Rightarrow> Instruction list" where
  "block_phis block = dropWhile (\<lambda>i. \<not> is_phi i) (rev (instructions block))"

definition block_live_in :: "Block \<Rightarrow> nat set \<Rightarrow> nat set" where
  "block_live_in block S =
     live_through (rev (instructions block)) S - phi_def_ids (block_phis block)"

definition block_result ::
  "lv_state \<Rightarrow> nat \<Rightarrow> Instruction list \<Rightarrow> RegisterDemand list \<Rightarrow> Instruction list
     \<Rightarrow> scan \<Rightarrow> scan \<Rightarrow> pred_state \<Rightarrow> lv_state" where
  "block_result s block_idx done demands phis st st1 ps =
     (let prog = lv_program s;
          block = blocks prog ! block_idx;
          block' = block\<lparr>instructions := rev phis @ rev done,
                          register_demand :=
                            (if progress_rank (progress prog) < progress_rank after_ra
                             then demand_update (block_register_demand st) (new_demand st)
                             else register_demand block)\<rparr>
      in s\<lparr>lv_program := prog\<lparr>blocks := (blocks prog)[block_idx := block'],
                                needs_vcc := ps_needs_vcc ps\<rparr>,
            lv_lives := \<lparr>live_out = ps_live_out ps,
                         live_register_demand =
                           (live_register_demand (lv_lives s))
                             [index block := replicate (length phis) (new_demand st1) @ rev demands]\<rparr>,
            lv_worklist := ps_worklist ps,
            lv_phi_sgpr_ops := ps_phi_sgpr_ops ps\<rparr>)"

text \<open>
  The registers the step inserts into the stored live-out set of block q, for a block whose
  stored live-out set is S: the live-ins of the block that q has to provide, and the phi
  operands of q.
\<close>

definition propagated :: "Program \<Rightarrow> Block \<Rightarrow> nat set \<Rightarrow> nat \<Rightarrow> nat set" where
  "propagated prog block S q =
     {t \<in> block_live_in block S. q \<in> set (preds_of_temp prog block t)}
     \<union> phis_uses block (block_phis block) q"

text \<open>The two halves of get_live_changes and get_temp_registers.\<close>

definition live_def_demand :: "Definition list \<Rightarrow> RegisterDemand" where
  "live_def_demand ds =
     fold (\<lambda>def changes.
            if \<not> def_isTemp def \<or> def_isKill def then changes
            else demand_add_temp changes (def_temp def)) ds RegisterDemand0"

definition dead_def_demand :: "Definition list \<Rightarrow> RegisterDemand" where
  "dead_def_demand ds =
     fold (\<lambda>def temp_registers.
            if \<not> def_isTemp def then temp_registers
            else if def_isKill def then demand_add_temp temp_registers (def_temp def)
            else temp_registers) ds RegisterDemand0"

definition first_kill_demand :: "Operand list \<Rightarrow> RegisterDemand" where
  "first_kill_demand os =
     fold (\<lambda>op d. if op_isTemp op \<and> isFirstKill op then demand_add_temp d (op_temp op) else d)
       os RegisterDemand0"

definition late_kill_demand :: "Operand list \<Rightarrow> RegisterDemand" where
  "late_kill_demand os =
     fold (\<lambda>op d. if op_isTemp op \<and> op_isLateKill op \<and> isFirstKill op
                   then demand_add_temp d (op_temp op) else d)
       os RegisterDemand0"

definition temp_demand :: "Temp \<Rightarrow> RegisterDemand" where
  "temp_demand t = demand_add_temp RegisterDemand0 t"

text \<open>The state after the operand at hand, when it is a register.\<close>

definition operand_state :: "Operand \<Rightarrow> scan \<Rightarrow> scan" where
  "operand_state x st =
     (let st1 = (if op_isFixed x \<and> op_physReg x = vcc then st\<lparr>vcc_seen := True\<rparr> else st);
          st2 = st1\<lparr>live_set := insert (tempId x) (live_set st1)\<rparr>
      in if tempId x \<in> live_set st then st2
         else (if op_isLateKill x
               then st2\<lparr>snapshot := demand_add_temp (snapshot st2) (op_temp x)\<rparr> else st2)
              \<lparr>new_demand := demand_add_temp (new_demand st2) (op_temp x)\<rparr>)"

text \<open>No operand is marked as a first kill, and one marked as a kill is in the live set.\<close>

definition flags_clear :: "nat set \<Rightarrow> Operand list \<Rightarrow> bool" where
  "flags_clear L os =
     (\<forall>x \<in> set os. \<not> isFirstKill_flag x \<and> (isKill_flag x \<longrightarrow> op_isTemp x \<and> tempId x \<in> L))"

text \<open>The flags the GEN loop leaves on the operand at index k.\<close>

definition flagged :: "nat set \<Rightarrow> Operand list \<Rightarrow> nat \<Rightarrow> Operand" where
  "flagged L os k =
     (if op_isTemp (os ! k) \<and> tempId (os ! k) \<notin> L
      then (os ! k)\<lparr>isKill_flag := True,
                     isFirstKill_flag :=
                       (\<forall>j < k. op_isTemp (os ! j) \<longrightarrow> tempId (os ! j) \<noteq> tempId (os ! k))\<rparr>
      else os ! k)"

text \<open>
  The demand the scan carries on when it has gone through an instruction, from the flags
  the scan left on it; and the registers the instruction needs only while it executes.
\<close>

definition demand_step :: "nat \<Rightarrow> Instruction \<Rightarrow> RegisterDemand \<Rightarrow> RegisterDemand" where
  "demand_step phi_ops insn D =
     (if opcode insn = p_logical_end
      then (let D' = demand_sub D (live_def_demand (definitions insn))
            in D'\<lparr>sgpr := sgpr D' + int phi_ops\<rparr>)
      else demand_sub D (get_live_changes insn))"

definition transient_demand :: "Instruction \<Rightarrow> RegisterDemand" where
  "transient_demand insn =
     (if opcode insn = p_logical_end then dead_def_demand (definitions insn)
      else get_temp_registers insn)"

text \<open>The running demand when the scan has gone through a list of instructions.\<close>

fun demand_through :: "nat \<Rightarrow> Instruction list \<Rightarrow> RegisterDemand \<Rightarrow> RegisterDemand" where
  "demand_through phi_ops [] D = D"
| "demand_through phi_ops (insn # rest) D = demand_through phi_ops rest (demand_step phi_ops insn D)"

text \<open>
  The data stored for block b is as a per-block step left it that read the same live-out
  set and the same count of scalar phi operands as are stored now.
\<close>

definition last_step :: "lv_state \<Rightarrow> nat \<Rightarrow> bool" where
  "last_step s b =
     (\<exists>s0 s1. process_live_temps_per_block s0 b = Inr s1
        \<and> b < length (blocks (lv_program s0)) \<and> index (blocks (lv_program s0) ! b) = b
        \<and> temp_rc (lv_program s0) = temp_rc (lv_program s)
        \<and> live_out (lv_lives s0) ! b = live_out (lv_lives s) ! b
        \<and> lv_phi_sgpr_ops s0 ! b = lv_phi_sgpr_ops s ! b
        \<and> blocks (lv_program s1) ! b = blocks (lv_program s) ! b
        \<and> live_register_demand (lv_lives s1) ! b = live_register_demand (lv_lives s) ! b)"

text \<open>The running demand at the end of a block with the stored live-out set L.\<close>

definition start_demand :: "Program \<Rightarrow> nat set \<Rightarrow> nat \<Rightarrow> RegisterDemand" where
  "start_demand prog L phi_ops =
     (let new_demand0 = initial_demand prog L
      in new_demand0\<lparr>sgpr := sgpr new_demand0 - int phi_ops\<rparr>)"

text \<open>
  The invariant of the worklist loop for the program p: the vectors keep their sizes, a
  block keeps its position as its index, and a block that is not pending has had its last
  step with the data stored now.
\<close>

definition analysis_inv :: "Program \<Rightarrow> lv_state \<Rightarrow> bool" where
  "analysis_inv p s =
     (length (blocks (lv_program s)) = length (blocks p)
      \<and> (\<forall>i < length (blocks p). index (blocks (lv_program s) ! i) = i)
      \<and> length (live_out (lv_lives s)) = length (blocks p)
      \<and> length (lv_phi_sgpr_ops s) = length (blocks p)
      \<and> length (live_register_demand (lv_lives s)) = length (blocks p)
      \<and> temp_rc (lv_program s) = temp_rc p
      \<and> lv_worklist s \<subseteq> {..<length (blocks p)}
      \<and> (\<forall>b < length (blocks p). b \<notin> lv_worklist s \<longrightarrow> last_step s b))"

text \<open>A block keeps its position in the vector of blocks as its index.\<close>

definition index_is_position :: "Program \<Rightarrow> bool" where
  "index_is_position p = (\<forall>i < length (blocks p). index (blocks p ! i) = i)"



subsection \<open>Example data for the liveness theorems\<close>

text \<open>
  A program of two blocks: block 0 defines the vector register 1; block 1, its successor on
  both kinds of edges, reads it twice in one instruction that also defines the scalar
  register 2, which nothing reads.
\<close>

definition v1_rc :: RegClass where
  "v1_rc = \<lparr>rc_type = RegType_vgpr, rc_size = 1, rc_is_linear = False\<rparr>"

definition s2_rc :: RegClass where
  "s2_rc = \<lparr>rc_type = RegType_sgpr, rc_size = 2, rc_is_linear = True\<rparr>"

definition mk_op :: "nat \<Rightarrow> RegClass \<Rightarrow> Operand" where
  "mk_op t rc = \<lparr>op_isTemp = True, op_temp = \<lparr>temp_id = t, regClass = rc\<rparr>, op_isFixed = False,
     op_physReg = 0, op_isLateKill = False, isKill_flag = False, isFirstKill_flag = False\<rparr>"

definition mk_def :: "nat \<Rightarrow> RegClass \<Rightarrow> Definition" where
  "mk_def t rc = \<lparr>def_isTemp = True, def_temp = \<lparr>temp_id = t, regClass = rc\<rparr>,
     def_isFixed = False, def_hasHint = False, def_physReg = 0, def_isKill = False\<rparr>"

definition logical_end :: Instruction where
  "logical_end = \<lparr>opcode = p_logical_end, operands = [], definitions = []\<rparr>"

definition def_block :: Block where
  "def_block = \<lparr>index = 0,
     instructions = [\<lparr>opcode = other_opcode 0, operands = [], definitions = [mk_def 1 v1_rc]\<rparr>,
                     logical_end],
     logical_preds = [], linear_preds = [], register_demand = RegisterDemand0\<rparr>"

definition use_block :: Block where
  "use_block = \<lparr>index = 1,
     instructions = [\<lparr>opcode = other_opcode 1, operands = [mk_op 1 v1_rc, mk_op 1 v1_rc],
                       definitions = [mk_def 2 s2_rc]\<rparr>,
                     logical_end],
     logical_preds = [0], linear_preds = [0], register_demand = RegisterDemand0\<rparr>"

definition two_block_program :: Program where
  "two_block_program = example_program\<lparr>blocks := [def_block, use_block],
     temp_rc := (\<lambda>t. if t = 1 then v1_rc else s2_rc)\<rparr>"

definition with_live_out :: "lv_state \<Rightarrow> nat set list \<Rightarrow> lv_state" where
  "with_live_out s xs = s\<lparr>lv_lives := (lv_lives s)\<lparr>live_out := xs\<rparr>\<rparr>"






section \<open>Lemmas and theorems\<close>

subsection \<open>Lemmas: the error monad and rounding\<close>

lemma bindE_Inr_iff: "bindE m f = Inr y \<longleftrightarrow> (\<exists>x. m = Inr x \<and> f x = Inr y)"
  by (cases m) (auto simp: bindE_def)

lemma bindE_Inr [simp]: "bindE (Inr x) f = f x"
  by (simp add: bindE_def)

lemma bindE_Inl [simp]: "bindE (Inl e) f = Inl e"
  by (simp add: bindE_def)

lemma divE_Inr_iff: "divE a b = Inr q \<longleftrightarrow> b \<noteq> 0 \<and> q = a div b"
  by (auto simp: divE_def)

lemma modE_Inr_iff: "modE a b = Inr q \<longleftrightarrow> b \<noteq> 0 \<and> q = a mod b"
  by (auto simp: modE_def)

lemma assertE_Inr_iff: "assertE c = Inr u \<longleftrightarrow> c"
  by (auto simp: assertE_def)

lemma u16_le: "u16 n \<le> n"
  by (simp add: u16_def)

lemma u16_lt: "u16 n < 65536"
  by (simp add: u16_def)

lemma u16_id: "n < 65536 \<Longrightarrow> u16 n = n"
  by (simp add: u16_def)

lemma u32_id: "n < 4294967296 \<Longrightarrow> u32 n = n"
  by (simp add: u32_def)

lemma u32_le: "u32 n \<le> n"
  by (simp add: u32_def)

lemma u16_of_int_id: "0 \<le> i \<Longrightarrow> i < 65536 \<Longrightarrow> u16_of_int i = nat i"
  by (simp add: u16_of_int_def)

lemma u16_of_int_lt: "u16_of_int i < 65536"
  by (simp add: u16_of_int_def nat_less_iff)

lemma and_not_mask_int: "(x::int) AND NOT (mask k) = push_bit k (drop_bit k x)"
  by (rule bit_eqI) (auto simp: bit_simps)

lemma and_not_pow2_int: "(x::int) AND NOT (2 ^ k - 1) = x - x mod 2 ^ k"
proof -
  have "x AND NOT (2 ^ k - 1) = 2 ^ k * (x div 2 ^ k)"
    using and_not_mask_int [of x k]
    by (simp add: mask_eq_exp_minus_1 push_bit_eq_mult drop_bit_eq_div mult.commute)
  also have "\<dots> = x - x mod 2 ^ k"
    by (simp add: minus_mod_eq_mult_div)
  finally show ?thesis .
qed

lemma and_not_pow2_nat:
  "int q AND NOT (int (2 ^ k) - 1) = int (q - q mod 2 ^ k)"
  using and_not_pow2_int [of "int q" k]
  by (simp add: of_nat_mod)

lemma round_down_ge:
  fixes a b g :: nat
  assumes "g dvd a" and "a \<le> b"
  shows "a \<le> b - b mod g"
proof (cases "g = 0")
  case True
  with assms show ?thesis by simp
next
  case False
  from assms(1) obtain c where c: "a = g * c" by (auto simp: dvd_def)
  with assms(2) False have "c \<le> b div g"
    by (metis div_le_mono nonzero_mult_div_cancel_left)
  then have "g * c \<le> g * (b div g)" by simp
  also have "\<dots> = b - b mod g" by (simp add: minus_mod_eq_mult_div)
  finally show ?thesis using c by simp
qed

lemma div_swap_le:
  fixes n a P :: nat
  assumes "n \<noteq> 0" and "n \<le> P div a"
  shows "a \<le> P div n"
proof (cases "a = 0")
  case True then show ?thesis by simp
next
  case False
  from assms(2) have "n * a \<le> (P div a) * a" by simp
  also have "\<dots> \<le> P" by simp
  finally have "a * n \<le> P" by (simp add: mult.commute)
  then show ?thesis using assms(1)
    by (metis div_le_mono nonzero_mult_div_cancel_right)
qed

lemma round_up_ge:
  fixes v g :: nat
  assumes "0 < g"
  shows "v \<le> ((v + g - 1) div g) * g"
proof -
  have "v + g - 1 < ((v + g - 1) div g) * g + g"
    using assms by (metis add.commute dividend_less_div_times mult.commute)
  then show ?thesis using assms by linarith
qed

lemma round_up_dvd:
  fixes v g :: nat
  shows "g dvd ((v + g - 1) div g) * g"
  by simp

lemma round_up_le_multiple:
  fixes v g m :: nat
  assumes "0 < g" and "g dvd m" and "v \<le> m"
  shows "((v + g - 1) div g) * g \<le> m"
proof -
  from assms(2) obtain c where c: "m = g * c" by (auto simp: dvd_def)
  have "v + g - 1 < g * c + g" using assms c by linarith
  then have "v + g - 1 < g * (c + 1)" by simp
  then have "(v + g - 1) div g < c + 1"
    using assms(1) by (simp add: less_mult_imp_div_less mult.commute)
  then have "(v + g - 1) div g \<le> c" by simp
  then have "((v + g - 1) div g) * g \<le> c * g" by (rule mult_le_mono1)
  then show ?thesis using c by (simp add: mult.commute)
qed

lemma round_up_less:
  fixes v g :: nat
  assumes "0 < g"
  shows "((v + g - 1) div g) * g < v + g"
proof -
  have "((v + g - 1) div g) * g \<le> v + g - 1" by simp
  then show ?thesis using assms by linarith
qed

subsection \<open>Lemmas: the occupancy functions\<close>

lemma get_addr_vgpr_from_waves_Inr:
  "get_addr_vgpr_from_waves p w = Inr v \<Longrightarrow> u16 w \<noteq> 0"
  by (auto simp: get_addr_vgpr_from_waves_def bindE_Inr_iff divE_Inr_iff Let_def)

lemma update_limits_computed:
  assumes "update_vgpr_sgpr_demand p d = Inr p'"
  shows "\<exists>sl vl. get_addr_sgpr_from_waves p (min_waves p) = Inr sl
           \<and> get_addr_vgpr_from_waves p (min_waves p) = Inr vl"
  using assms
  unfolding update_vgpr_sgpr_demand_def Let_def bindE_Inr_iff
  by blast

lemma update_infeasible_unfold:
  assumes "update_vgpr_sgpr_demand p d = Inr p'"
    and "get_addr_sgpr_from_waves p (min_waves p) = Inr sl"
    and "get_addr_vgpr_from_waves p (min_waves p) = Inr vl"
    and "vgpr d > int vl \<or> sgpr d > int sl"
  shows "p' = p\<lparr>num_waves := 0, max_reg_demand := d\<rparr>"
  using assms
  unfolding update_vgpr_sgpr_demand_def Let_def bindE_Inr_iff
  apply (elim exE conjE)
  apply (simp only: sum.inject)
  apply (simp only: if_True)
  apply simp
  done

lemma update_feasible_unfold:
  assumes "update_vgpr_sgpr_demand p d = Inr p'"
    and "get_addr_sgpr_from_waves p (min_waves p) = Inr sl"
    and "get_addr_vgpr_from_waves p (min_waves p) = Inr vl"
    and "\<not> (vgpr d > int vl \<or> sgpr d > int sl)"
  shows "\<exists>sa va mw v s n. get_sgpr_alloc p (u16_of_int (sgpr d)) = Inr sa \<and> sa \<noteq> 0
     \<and> get_vgpr_alloc p (u16_of_int (vgpr d)) = Inr va
     \<and> u16 (va + num_shared_vgprs (config p) div 2) \<noteq> 0
     \<and> adjust_max_waves p (max_waves_per_simd_of p) (simd_per_cu_wgp_of p) (lds_limit_of p) = Inr mw
     \<and> n = min (min (u16 (physical_sgprs (dev p) div sa))
                (u16 (physical_vgprs (dev p) div u16 (va + num_shared_vgprs (config p) div 2)))) mw
     \<and> get_addr_vgpr_from_waves p n = Inr v
     \<and> get_addr_sgpr_from_waves p n = Inr s
     \<and> p' = p\<lparr>num_waves := n, max_waves := mw, max_reg_demand := \<lparr>vgpr = int v, sgpr = int s\<rparr>\<rparr>"
  using assms
  unfolding update_vgpr_sgpr_demand_def max_waves_per_simd_of_def simd_per_cu_wgp_of_def
    lds_limit_of_def Let_def bindE_Inr_iff divE_Inr_iff assertE_Inr_iff
  apply (elim exE conjE)
  apply (simp only: sum.inject)
  apply (simp only: if_False bindE_Inr_iff divE_Inr_iff)
  apply (elim exE conjE)
  apply hypsubst
  apply (intro exI conjI)
          apply assumption
         apply assumption
        apply assumption
       apply assumption
      apply assumption
     apply (rule refl)
    apply assumption
   apply assumption
  apply simp
  done

lemma example_device_simps:
  "lds_encoding_granule example_device = 512" "lds_alloc_granule example_device = 512"
  "lds_limit example_device = 65536" "physical_sgprs example_device = 800"
  "physical_vgprs example_device = 256" "vgpr_limit example_device = 256"
  "sgpr_limit example_device = 102" "sgpr_alloc_granule example_device = 16"
  "vgpr_alloc_granule example_device = 4" "max_wave64_per_simd example_device = 10"
  "simd_per_cu example_device = 4" "xnack_enabled example_device = False"
  by (simp_all add: example_device_def)

lemma example_program_simps:
  "dev example_program = example_device"
  "config example_program = \<lparr>num_shared_vgprs = 0, lds_size = 0\<rparr>"
  "chip_class example_program = GFX9" "needs_flat_scr example_program = False"
  "needs_vcc example_program = True" "wgp_mode example_program = False"
  "wave_size example_program = 64" "workgroup_size example_program = 64"
  "min_waves example_program = 1"
  by (simp_all add: example_program_def)

lemma lds_overflow_program_simps:
  "dev lds_overflow_program = example_device"
  "config lds_overflow_program = \<lparr>num_shared_vgprs = 0, lds_size = 200\<rparr>"
  "chip_class lds_overflow_program = GFX9" "needs_flat_scr lds_overflow_program = False"
  "needs_vcc lds_overflow_program = True" "wgp_mode lds_overflow_program = False"
  "wave_size lds_overflow_program = 64" "workgroup_size lds_overflow_program = 64"
  "min_waves lds_overflow_program = 1"
  by (simp_all add: lds_overflow_program_def example_program_simps)

lemmas occupancy_eval = get_addr_sgpr_from_waves_def get_addr_vgpr_from_waves_def
  divE_def modE_def round_down_def get_extra_sgprs_def u16_def u32_def u16_of_int_def Let_def
  get_sgpr_alloc_def get_vgpr_alloc_def ALIGN_NPOT_def DIV_ROUND_UP_def align_def assertE_def
  UINT_MAX_def calc_waves_per_workgroup_def adjust_max_waves_def example_device_simps

lemma example_limits:
  "get_addr_sgpr_from_waves example_program 1 = Inr 102"
  "get_addr_vgpr_from_waves example_program 1 = Inr 256"
  by (simp_all add: occupancy_eval example_program_simps)

lemma lds_overflow_limits:
  "get_addr_sgpr_from_waves lds_overflow_program 1 = Inr 102"
  "get_addr_vgpr_from_waves lds_overflow_program 1 = Inr 256"
  by (simp_all add: occupancy_eval lds_overflow_program_simps)

lemma example_limits_Suc:
  "get_addr_sgpr_from_waves example_program (Suc 0) = Inr 102"
  "get_addr_vgpr_from_waves example_program (Suc 0) = Inr 256"
  "get_addr_sgpr_from_waves lds_overflow_program (Suc 0) = Inr 102"
  "get_addr_vgpr_from_waves lds_overflow_program (Suc 0) = Inr 256"
  using example_limits lds_overflow_limits by simp_all

lemma lds_overflow_adjust:
  "adjust_max_waves lds_overflow_program 10 4 65536 = Inr 0"
  by (simp add: occupancy_eval lds_overflow_program_simps)

lemma lds_overflow_allocs:
  "get_sgpr_alloc lds_overflow_program 100 = Inr 112"
  "get_vgpr_alloc lds_overflow_program 24 = Inr 24"
  by (simp_all add: occupancy_eval lds_overflow_program_simps)

lemma example_feasible_run:
  "\<exists>p'. update_vgpr_sgpr_demand example_program \<lparr>vgpr = 24, sgpr = 100\<rparr> = Inr p'
         \<and> num_waves p' = 7"
proof -
  have a: "get_sgpr_alloc example_program 100 = Inr 112"
    "get_vgpr_alloc example_program 24 = Inr 24"
    "adjust_max_waves example_program 10 4 65536 = Inr 10"
    "get_addr_vgpr_from_waves example_program 7 = Inr 36"
    "get_addr_sgpr_from_waves example_program 7 = Inr 102"
    by (simp_all add: occupancy_eval example_program_simps)
  show ?thesis
    by (simp add: update_vgpr_sgpr_demand_def example_limits_Suc a
        example_program_simps example_device_simps divE_def assertE_def
        u16_def u32_def u16_of_int_def)
qed

lemma adjust_max_waves_le:
  assumes "adjust_max_waves p M S L = Inr mw"
  shows "mw \<le> M"
proof -
  from assms obtain r where "mw = min (u16 M) (u16 r)"
    unfolding adjust_max_waves_def Let_def bindE_Inr_iff by auto
  then show ?thesis using u16_le [of M] by simp
qed

lemma get_extra_sgprs_le: "get_extra_sgprs p = Inr e \<Longrightarrow> e \<le> 6"
  by (auto simp: get_extra_sgprs_def bindE_def assertE_def split: if_splits)

lemma pow2_lt_65536: "k \<le> 15 \<Longrightarrow> (2::nat) ^ k < 65536"
proof -
  assume "k \<le> 15"
  then have "(2::nat) ^ k \<le> 2 ^ 15" by (intro power_increasing) simp_all
  then show ?thesis by simp
qed

lemma align_fixed: "0 < g \<Longrightarrow> align g g = g"
  using round_up_ge [of g g] round_up_le_multiple [of g g g] by (simp add: align_def)

lemma vgpr_alloc_facts:
  assumes a: "get_vgpr_alloc p (u16_of_int dv) = Inr va"
    and dv: "0 \<le> dv" "dv \<le> int (vgpr_limit (dev p))"
    and g: "vgpr_alloc_granule (dev p) = 2 ^ k" "k \<le> 15"
    and b: "vgpr_limit (dev p) + vgpr_alloc_granule (dev p) + sh < 65536"
  shows "nat dv \<le> va \<and> 2 ^ k dvd va \<and> va + sh < 65536"
proof -
  have g16: "(2::nat) ^ k < 65536" using g(2) by (rule pow2_lt_65536)
  have gpos: "0 < (2::nat) ^ k" by simp
  have d16: "nat dv < 65536" using dv b by linarith
  have u: "u16 (u16_of_int dv) = nat dv"
    using dv d16 by (simp add: u16_of_int_id u16_id)
  define x where "x = max (nat dv) (2 ^ k)"
  have va: "va = u16 (align x (2 ^ k))"
    using a unfolding get_vgpr_alloc_def Let_def bindE_Inr_iff
    by (auto simp: u g u16_id [OF g16] x_def)
  have lo: "x \<le> align x (2 ^ k)"
    unfolding align_def using gpos by (rule round_up_ge)
  have dv': "2 ^ k dvd align x (2 ^ k)"
    unfolding align_def by (rule round_up_dvd)
  have hi: "align x (2 ^ k) + sh < 65536"
  proof (cases "nat dv \<le> 2 ^ k")
    case True
    then have "x = 2 ^ k" by (simp add: x_def)
    then have "align x (2 ^ k) = 2 ^ k" using align_fixed [OF gpos] by simp
    then show ?thesis using b g by simp
  next
    case False
    then have "x = nat dv" by (simp add: x_def)
    moreover have "align x (2 ^ k) < x + 2 ^ k"
      unfolding align_def using gpos by (rule round_up_less)
    ultimately show ?thesis using b g dv by linarith
  qed
  then have "va = align x (2 ^ k)" using va by (simp add: u16_id)
  with lo dv' hi show ?thesis by (simp add: x_def)
qed

lemma vgpr_allotment_ge:
  assumes r: "get_addr_vgpr_from_waves p n = Inr v"
    and g: "vgpr_alloc_granule (dev p) = 2 ^ k"
    and pv: "physical_vgprs (dev p) < 65536"
    and n: "n < 65536" "n \<le> physical_vgprs (dev p) div (va + num_shared_vgprs (config p) div 2)"
    and dvd: "2 ^ k dvd va" "2 ^ k dvd num_shared_vgprs (config p) div 2"
    and m: "m \<le> va" "m \<le> vgpr_limit (dev p)"
  shows "m \<le> v"
proof -
  define sh where "sh = num_shared_vgprs (config p) div 2"
  define q where "q = physical_vgprs (dev p) div n"
  define R where "R = q - q mod 2 ^ k"
  have un: "u16 n = n" using n(1) by (rule u16_id)
  have n0: "n \<noteq> 0"
    using get_addr_vgpr_from_waves_Inr [OF r] unfolding un .
  have "va + sh \<le> q"
    unfolding q_def sh_def using n0 n(2) by (rule div_swap_le)
  moreover have "2 ^ k dvd va + sh" using dvd by (simp add: sh_def)
  ultimately have R: "va + sh \<le> R" unfolding R_def by (rule round_down_ge [rotated])
  have "q \<le> physical_vgprs (dev p)" by (simp add: q_def)
  then have R16: "R < 65536" using pv by (simp add: R_def)
  have A: "int q AND NOT (int (2 ^ k) - 1) = int R"
    unfolding R_def by (rule and_not_pow2_nat)
  have B: "u16_of_int (int R) = R" using R16 by (simp add: u16_of_int_id)
  have D: "int R - int sh = int (R - sh)" using R by simp
  have "u16_of_int (int (R - sh)) = R - sh" using R16 by (simp add: u16_of_int_def)
  then have C: "u16_of_int (int R - int sh) = R - sh" by (simp only: D)
  have "get_addr_vgpr_from_waves p n
          = Inr (min (u16_of_int (int (u16_of_int (int q AND NOT (int (2 ^ k) - 1))) - int sh))
                 (vgpr_limit (dev p)))"
    unfolding get_addr_vgpr_from_waves_def Let_def un divE_def q_def sh_def g
    using n0 by (simp only: if_False bindE_Inr)
  then have "get_addr_vgpr_from_waves p n = Inr (min (R - sh) (vgpr_limit (dev p)))"
    unfolding A B C .
  with r have "v = min (R - sh) (vgpr_limit (dev p))" by simp
  then show ?thesis using R m by simp
qed

lemma sgpr_alloc_facts:
  assumes a: "get_sgpr_alloc p (u16_of_int ds) = Inr sa"
    and ds: "0 \<le> ds" "ds \<le> int (sgpr_limit (dev p))"
    and g: "sgpr_alloc_granule (dev p) dvd 128"
    and l: "sgpr_limit (dev p) \<le> 122"
    and e: "get_extra_sgprs p = Inr e"
  shows "nat ds + e \<le> sa \<and> sgpr_alloc_granule (dev p) dvd sa \<and> sa \<le> 128"
proof -
  define gr where "gr = sgpr_alloc_granule (dev p)"
  have e6: "e \<le> 6" using e by (rule get_extra_sgprs_le)
  have gpos: "0 < gr" using g unfolding gr_def by (cases "sgpr_alloc_granule (dev p) = 0") auto
  have g128: "gr \<le> 128" using g unfolding gr_def by (auto dest: dvd_imp_le)
  have ug: "u16 gr = gr" using g128 by (simp add: u16_id)
  have d16: "nat ds < 65536" using ds l by linarith
  have u: "u16 (u16_of_int ds) = nat ds"
    using ds d16 by (simp add: u16_of_int_id u16_id)
  have s: "u16 (nat ds + e) = nat ds + e" using ds l e6 by (simp add: u16_id)
  define x where "x = max (nat ds + e) gr"
  have x128: "x \<le> 128" using ds l e6 g128 by (simp add: x_def)
  define r where "r = ((x + gr - 1) div gr) * gr"
  have sa: "sa = u16 r"
    using a gpos unfolding get_sgpr_alloc_def Let_def bindE_Inr_iff ALIGN_NPOT_def
    by (auto simp: e u s ug gr_def [symmetric] x_def r_def)
  have lo: "x \<le> r" unfolding r_def using gpos by (rule round_up_ge)
  have dv: "gr dvd r" unfolding r_def by (rule round_up_dvd)
  have hi: "r \<le> 128" unfolding r_def using gpos g x128
    by (intro round_up_le_multiple) (simp_all add: gr_def)
  then have "sa = r" using sa by (simp add: u16_id)
  with lo dv hi show ?thesis by (simp add: x_def gr_def)
qed

lemma sgpr_allotment_ge:
  assumes r: "get_addr_sgpr_from_waves p n = Inr s"
    and e: "get_extra_sgprs p = Inr e"
    and g: "sgpr_alloc_granule (dev p) dvd 128"
    and n: "n < 65536" "n \<le> physical_sgprs (dev p) div sa"
    and sa: "sgpr_alloc_granule (dev p) dvd sa" "sa \<le> 128"
    and m: "m + e \<le> sa" "m \<le> sgpr_limit (dev p)"
  shows "m \<le> s"
proof -
  define gr where "gr = sgpr_alloc_granule (dev p)"
  define q where "q = physical_sgprs (dev p) div n"
  define x where "x = min q 128"
  define R where "R = x - x mod gr"
  have gpos: "0 < gr" using g unfolding gr_def by (cases "sgpr_alloc_granule (dev p) = 0") auto
  have g128: "gr \<le> 128" using g unfolding gr_def by (auto dest: dvd_imp_le)
  have x128: "x \<le> 128" by (simp add: x_def)
  have R128: "R \<le> 128" using x128 by (simp add: R_def)
  have un: "u16 n = n" using n(1) by (rule u16_id)
  have n0: "n \<noteq> 0"
    using r unfolding get_addr_sgpr_from_waves_def bindE_Inr_iff divE_Inr_iff un by blast
  have ux: "u16 x = x" using x128 by (simp add: u16_id)
  have rd: "round_down x gr = Inr R"
    using x128 g128 gpos by (simp add: round_down_def modE_def u32_id R_def)
  have "get_addr_sgpr_from_waves p n
          = Inr (min (u16_of_int (int (u16 R) - int e)) (sgpr_limit (dev p)))"
    unfolding get_addr_sgpr_from_waves_def Let_def un
    using n0 by (simp add: divE_def q_def [symmetric] x_def [symmetric] ux gr_def [symmetric] rd e)
  with r have s: "s = min (u16_of_int (int (u16 R) - int e)) (sgpr_limit (dev p))" by simp
  have "sa \<le> q" unfolding q_def using n0 n(2) by (rule div_swap_le)
  then have "sa \<le> x" using sa(2) by (simp add: x_def)
  then have R: "sa \<le> R" unfolding R_def using sa(1) by (intro round_down_ge) (simp_all add: gr_def)
  have U: "u16 R = R" using R128 by (simp add: u16_id)
  have D: "int R - int e = int (R - e)" using R m(1) by simp
  have E: "u16_of_int (int (R - e)) = R - e" using R128 by (simp add: u16_of_int_def)
  have C: "u16_of_int (int R - int e) = R - e" by (simp only: D E)
  have "s = min (R - e) (sgpr_limit (dev p))" using s unfolding U C .
  then show ?thesis using R m by simp
qed


lemma get_addr_vgpr_le_limit:
  "get_addr_vgpr_from_waves p w = Inr v \<Longrightarrow> v \<le> vgpr_limit (dev p)"
  unfolding get_addr_vgpr_from_waves_def Let_def bindE_Inr_iff by auto

lemma get_addr_sgpr_le_limit:
  "get_addr_sgpr_from_waves p w = Inr v \<Longrightarrow> v \<le> sgpr_limit (dev p)"
  unfolding get_addr_sgpr_from_waves_def Let_def bindE_Inr_iff by auto

lemma get_sgpr_alloc_extra:
  "get_sgpr_alloc p a = Inr sa \<Longrightarrow> \<exists>e. get_extra_sgprs p = Inr e"
  unfolding get_sgpr_alloc_def Let_def bindE_Inr_iff by blast

lemma gfx10_3_device_simps:
  "lds_encoding_granule gfx10_3_device = 512" "lds_alloc_granule gfx10_3_device = 512"
  "lds_limit gfx10_3_device = 65536" "physical_sgprs gfx10_3_device = 5120"
  "physical_vgprs gfx10_3_device = 512" "vgpr_limit gfx10_3_device = 256"
  "sgpr_limit gfx10_3_device = 108" "sgpr_alloc_granule gfx10_3_device = 128"
  "vgpr_alloc_granule gfx10_3_device = 8" "max_wave64_per_simd gfx10_3_device = 16"
  "simd_per_cu gfx10_3_device = 2" "xnack_enabled gfx10_3_device = False"
  by (simp_all add: gfx10_3_device_def)

lemma shared_vgprs_program_simps:
  "dev shared_vgprs_program = gfx10_3_device"
  "config shared_vgprs_program = \<lparr>num_shared_vgprs = 8, lds_size = 0\<rparr>"
  "chip_class shared_vgprs_program = GFX10_3" "needs_flat_scr shared_vgprs_program = False"
  "needs_vcc shared_vgprs_program = True" "wgp_mode shared_vgprs_program = False"
  "wave_size shared_vgprs_program = 64" "workgroup_size shared_vgprs_program = 64"
  "min_waves shared_vgprs_program = 1"
  by (simp_all add: shared_vgprs_program_def example_program_simps)

lemmas occupancy_eval_gfx10_3 = get_addr_sgpr_from_waves_def get_addr_vgpr_from_waves_def
  divE_def modE_def round_down_def get_extra_sgprs_def u16_def u32_def u16_of_int_def Let_def
  get_sgpr_alloc_def get_vgpr_alloc_def ALIGN_NPOT_def DIV_ROUND_UP_def align_def assertE_def
  UINT_MAX_def calc_waves_per_workgroup_def adjust_max_waves_def gfx10_3_device_simps

lemma shared_vgprs_run:
  "get_addr_sgpr_from_waves shared_vgprs_program (Suc 0) = Inr 108"
  "get_addr_vgpr_from_waves shared_vgprs_program (Suc 0) = Inr 256"
  "get_sgpr_alloc shared_vgprs_program 20 = Inr 128"
  "get_vgpr_alloc shared_vgprs_program 40 = Inr 40"
  "adjust_max_waves shared_vgprs_program 16 2 65536 = Inr 16"
  "get_addr_vgpr_from_waves shared_vgprs_program 11 = Inr 36"
  "get_addr_sgpr_from_waves shared_vgprs_program 11 = Inr 108"
  by (simp_all add: occupancy_eval_gfx10_3 shared_vgprs_program_simps)

subsection \<open>C7: the reserved scalar registers\<close>

text \<open>
  C7, as stated, at a program of the GFX10 tier that needs flat scratch: the function does not
  return one of 0, 2, 4, 6 there, its assertion fails.
\<close>

theorem get_extra_sgprs_assert_counterexample:
  "get_extra_sgprs (example_program\<lparr>chip_class := GFX10, needs_flat_scr := True\<rparr>)
     = Inl AssertionFailed"
  by (simp add: get_extra_sgprs_def example_program_def bindE_def assertE_def)

text \<open>
  C7 (amended): for every program state that passes the assertions of get_extra_sgprs, the
  function returns a value in {0, 2, 4, 6} that depends on the generation tier and on the flags
  needs_flat_scr, xnack_enabled and needs_vcc only; a flat-scratch need takes precedence over
  xnack, which takes precedence over a VCC need; from GFX10 on and when no flag is set the
  value is 0.
\<close>

theorem get_extra_sgprs_policy:
  assumes "extra_sgprs_asserts p"
  shows "\<exists>n. get_extra_sgprs p = Inr n \<and> n \<in> {0, 2, 4, 6}
    \<and> n = (if generation_tier p = 2 then 0
           else if needs_flat_scr p then (if generation_tier p = 1 then 6 else 4)
           else if xnack_enabled (dev p) then 4
           else if needs_vcc p then 2 else 0)
    \<and> (\<forall>q. generation_tier q = generation_tier p \<and> needs_flat_scr q = needs_flat_scr p
           \<and> xnack_enabled (dev q) = xnack_enabled (dev p) \<and> needs_vcc q = needs_vcc p
           \<longrightarrow> get_extra_sgprs q = Inr n)
    \<and> (\<not> needs_flat_scr p \<and> \<not> xnack_enabled (dev p) \<and> \<not> needs_vcc p \<longrightarrow> n = 0)"
  using assms
  by (auto simp: get_extra_sgprs_def extra_sgprs_asserts_def generation_tier_def bindE_def
      assertE_def split: if_splits)

theorem get_extra_sgprs_policy_witness:
  "extra_sgprs_asserts example_program \<and> get_extra_sgprs example_program = Inr 2"
  using get_extra_sgprs_policy [of example_program]
  by (simp add: extra_sgprs_asserts_def generation_tier_def example_program_def
      example_device_def get_extra_sgprs_def)

subsection \<open>C6: how infeasible register pressure is reported\<close>

text \<open>
  C6, as stated, at a program whose peak demand is within both limits at the minimum wave
  count but whose LDS use exceeds the LDS of the device: the wave count bound is 0 and the
  function divides by it instead of reporting a nonzero wave count.
\<close>

theorem update_feasible_abort_counterexample:
  "get_addr_sgpr_from_waves lds_overflow_program (min_waves lds_overflow_program) = Inr 102
   \<and> get_addr_vgpr_from_waves lds_overflow_program (min_waves lds_overflow_program) = Inr 256
   \<and> update_vgpr_sgpr_demand lds_overflow_program \<lparr>vgpr = 24, sgpr = 100\<rparr> = Inl DivisionByZero"
proof -
  have "get_addr_vgpr_from_waves lds_overflow_program 0 = Inl DivisionByZero"
    by (simp add: get_addr_vgpr_from_waves_def divE_def u16_def)
  then show ?thesis
    by (simp add: update_vgpr_sgpr_demand_def example_limits_Suc lds_overflow_adjust
        lds_overflow_allocs lds_overflow_program_simps example_device_simps divE_def assertE_def
        u16_def u32_def u16_of_int_def)
qed

text \<open>
  C6 (amended): once the limits at the program's minimum wave count are computed, a peak
  demand that exceeds the vgpr or the sgpr limit makes update_vgpr_sgpr_demand return with
  num_waves = 0 and max_reg_demand = the peak demand, with no abort; in every other case each
  result it returns has a nonzero num_waves (a wave count of zero is not reported: the
  function divides by it). So a returned state has num_waves = 0 exactly when the demand
  exceeded a limit.
\<close>

theorem update_infeasibility_signal:
  assumes "get_addr_sgpr_from_waves p (min_waves p) = Inr sl"
    and "get_addr_vgpr_from_waves p (min_waves p) = Inr vl"
    and "wave_size p \<noteq> 0" and "1 \<le> min_waves p"
  shows "(if vgpr d > int vl \<or> sgpr d > int sl
          then update_vgpr_sgpr_demand p d = Inr (p\<lparr>num_waves := 0, max_reg_demand := d\<rparr>)
          else \<forall>p'. update_vgpr_sgpr_demand p d = Inr p' \<longrightarrow> num_waves p' \<noteq> 0)"
proof (cases "vgpr d > int vl \<or> sgpr d > int sl")
  case True
  with assms show ?thesis
    by (auto simp: update_vgpr_sgpr_demand_def divE_def assertE_def Let_def)
next
  case False
  have "num_waves p' \<noteq> 0" if r: "update_vgpr_sgpr_demand p d = Inr p'" for p'
  proof -
    from update_feasible_unfold [OF r assms(1,2) False]
    obtain n mw v s where n: "get_addr_vgpr_from_waves p n = Inr v"
      and p': "p' = p\<lparr>num_waves := n, max_waves := mw,
                      max_reg_demand := \<lparr>vgpr = int v, sgpr = int s\<rparr>\<rparr>"
      by blast
    from get_addr_vgpr_from_waves_Inr [OF n] have "n \<noteq> 0" by (auto simp: u16_def)
    with p' show ?thesis by simp
  qed
  with False show ?thesis by simp
qed



theorem update_infeasibility_signal_witness:
  "update_vgpr_sgpr_demand example_program \<lparr>vgpr = 300, sgpr = 0\<rparr>
     = Inr (example_program\<lparr>num_waves := 0, max_reg_demand := \<lparr>vgpr = 300, sgpr = 0\<rparr>\<rparr>)
   \<and> (\<exists>p'. update_vgpr_sgpr_demand example_program \<lparr>vgpr = 24, sgpr = 100\<rparr> = Inr p'
         \<and> num_waves p' \<noteq> 0)"
proof -
  have m: "min_waves example_program = 1" "wave_size example_program \<noteq> 0"
    by (simp_all add: example_program_simps)
  have l: "get_addr_sgpr_from_waves example_program (min_waves example_program) = Inr 102"
    "get_addr_vgpr_from_waves example_program (min_waves example_program) = Inr 256"
    using example_limits by (simp_all add: m)
  have a: "update_vgpr_sgpr_demand example_program \<lparr>vgpr = 300, sgpr = 0\<rparr>
     = Inr (example_program\<lparr>num_waves := 0, max_reg_demand := \<lparr>vgpr = 300, sgpr = 0\<rparr>\<rparr>)"
    using update_infeasibility_signal [OF l, of "\<lparr>vgpr = 300, sgpr = 0\<rparr>"] m by simp
  obtain p' where p': "update_vgpr_sgpr_demand example_program \<lparr>vgpr = 24, sgpr = 100\<rparr> = Inr p'"
    using example_feasible_run by blast
  have "num_waves p' \<noteq> 0"
    using update_infeasibility_signal [OF l, of "\<lparr>vgpr = 24, sgpr = 100\<rparr>"] m p' by simp
  with a p' show ?thesis by blast
qed

subsection \<open>C5: the wave count and the register allotment of the feasible branch\<close>

text \<open>
  C5, at a GFX10.3 wave64 device (vgpr granule 8, 512 physical vgprs) with 8 shared vgprs
  and a peak demand of 40 vgprs and 20 sgprs: the demand is within the limits at the minimum
  wave count (108 sgprs, 256 vgprs), so the feasible branch is taken; the vgpr allocation is
  40, the wave count chosen is 512 div (40 + 4) = 11, and the vgpr allotment recomputed from
  it is (512 div 11 rounded down to the granule) - 4 = 36, less than the demand of 40. The
  vgpr path adds the shared vgprs after rounding the allocation up, and subtracts them after
  rounding the allotment down; the sgpr path keeps its reserved registers inside both
  roundings, and its allotment, 108, covers the demand.
\<close>

theorem update_vgpr_allotment_shortfall:
  "get_addr_sgpr_from_waves shared_vgprs_program (min_waves shared_vgprs_program) = Inr 108
   \<and> get_addr_vgpr_from_waves shared_vgprs_program (min_waves shared_vgprs_program) = Inr 256
   \<and> get_vgpr_alloc shared_vgprs_program 40 = Inr 40
   \<and> (\<exists>p'. update_vgpr_sgpr_demand shared_vgprs_program \<lparr>vgpr = 40, sgpr = 20\<rparr> = Inr p'
         \<and> num_waves p' = 11 \<and> vgpr (max_reg_demand p') = 36
         \<and> sgpr (max_reg_demand p') = 108)"
  by (simp add: update_vgpr_sgpr_demand_def shared_vgprs_run shared_vgprs_program_simps
      gfx10_3_device_simps divE_def assertE_def u16_def u32_def u16_of_int_def)
subsection \<open>The live sets of the per-block step\<close>

lemma def_ids_simps [simp]:
  "def_ids [] = {}"
  "def_ids (d # ds) = (if def_isTemp d then {temp_id (def_temp d)} else {}) \<union> def_ids ds"
  by (auto simp: def_ids_def)

lemma use_ids_simps [simp]:
  "use_ids [] = {}"
  "use_ids (x # xs) = (if op_isTemp x then {tempId x} else {}) \<union> use_ids xs"
  by (auto simp: use_ids_def)

lemma process_definition_live:
  "live_set (snd (process_definition d st))
     = live_set st - (if def_isTemp d then {temp_id (def_temp d)} else {})"
  by (simp add: process_definition_def Let_def)

lemma process_definitions_live:
  "live_set (snd (process_definitions ds st)) = live_set st - def_ids ds"
proof (induction ds arbitrary: st)
  case Nil
  then show ?case by simp
next
  case (Cons d ds)
  obtain d' st' where p: "process_definition d st = (d', st')" by (cases "process_definition d st")
  have "live_set st' = live_set st - (if def_isTemp d then {temp_id (def_temp d)} else {})"
    using process_definition_live [of d st] p by simp
  then show ?case using Cons.IH [of st'] p
    by (auto simp: split_beta)
qed

lemma mark_later_operand_temp [simp]:
  "op_isTemp (mark_later_operand x y) = op_isTemp y"
  "tempId (mark_later_operand x y) = tempId y"
  "op_temp (mark_later_operand x y) = op_temp y"
  by (simp_all add: mark_later_operand_def setKill_def setFirstKill_def tempId_def)

lemma use_ids_mark [simp]: "use_ids (map (mark_later_operand x) xs) = use_ids xs"
  by (induction xs) simp_all

lemma setKill_temp [simp]:
  "op_isTemp (setKill f y) = op_isTemp y" "tempId (setKill f y) = tempId y"
  "op_temp (setKill f y) = op_temp y" "op_isLateKill (setKill f y) = op_isLateKill y"
  "op_isFixed (setKill f y) = op_isFixed y" "op_physReg (setKill f y) = op_physReg y"
  by (simp_all add: setKill_def tempId_def)

lemma setFirstKill_temp [simp]:
  "op_isTemp (setFirstKill f y) = op_isTemp y" "tempId (setFirstKill f y) = tempId y"
  "op_temp (setFirstKill f y) = op_temp y" "op_isLateKill (setFirstKill f y) = op_isLateKill y"
  "op_isFixed (setFirstKill f y) = op_isFixed y" "op_physReg (setFirstKill f y) = op_physReg y"
  by (simp_all add: setFirstKill_def tempId_def)

lemma use_ids_setKill [simp]: "use_ids (map (setKill f) xs) = use_ids xs"
  by (induction xs) simp_all

lemma process_operands_live:
  "live_set (snd (process_operands os st)) = live_set st \<union> use_ids os"
proof (induction os arbitrary: st rule: length_induct)
  case (1 os)
  show ?case
  proof (cases os)
    case Nil
    then show ?thesis by simp
  next
    case (Cons x xs)
    have IH: "\<And>ys st. length ys = length xs
      \<Longrightarrow> live_set (snd (process_operands ys st)) = live_set st \<union> use_ids ys"
      using 1 Cons by simp
    show ?thesis
      unfolding Cons
      by (auto simp: Let_def split_beta IH tempId_def)
  qed
qed

lemma process_instruction_live:
  "live_set (snd (process_instruction phi_ops insn st)) = live_before insn (live_set st)"
proof -
  define st0 where
    "st0 = st\<lparr>snapshot := \<lparr>vgpr = vgpr (new_demand st), sgpr = sgpr (new_demand st)\<rparr>\<rparr>"
  obtain ds' st1 where d: "process_definitions (definitions insn) st0 = (ds', st1)"
    by (cases "process_definitions (definitions insn) st0")
  have l1: "live_set st1 = live_set st - def_ids (definitions insn)"
    using process_definitions_live [of "definitions insn" st0] d by (simp add: st0_def)
  show ?thesis
  proof (cases "opcode insn = p_logical_end")
    case True
    then show ?thesis
      using d l1 by (simp add: process_instruction_def Let_def st0_def [symmetric] live_before_def)
  next
    case False
    obtain os' st2 where o: "process_operands (map (setKill False) (operands insn)) st1 = (os', st2)"
      by (cases "process_operands (map (setKill False) (operands insn)) st1")
    have "live_set st2 = live_set st1 \<union> use_ids (operands insn)"
      using process_operands_live [of "map (setKill False) (operands insn)" st1] o by simp
    then show ?thesis
      using False d l1 o
      by (simp add: process_instruction_def Let_def st0_def [symmetric] live_before_def)
  qed
qed

lemma scan_instructions_live:
  "scan_instructions phi_ops xs st = (done, demands, phis, st')
     \<Longrightarrow> live_set st' = live_through xs (live_set st)"
proof (induction xs arbitrary: st "done" demands phis st')
  case Nil
  then show ?case by simp
next
  case (Cons x xs)
  show ?case
  proof (cases "is_phi x")
    case True
    with Cons.prems show ?thesis by auto
  next
    case False
    obtain x' st1 where p: "process_instruction phi_ops x st = (x', st1)"
      by (cases "process_instruction phi_ops x st")
    obtain d2 dm2 ph2 st2 where r: "scan_instructions phi_ops xs st1 = (d2, dm2, ph2, st2)"
      by (cases "scan_instructions phi_ops xs st1") auto
    have "st' = st2" using Cons.prems False p r by simp
    moreover have "live_set st1 = live_before x (live_set st)"
      using process_instruction_live [of phi_ops x st] p by simp
    ultimately show ?thesis using Cons.IH [OF r] False by simp
  qed
qed

lemma live_before_mono: "A \<subseteq> B \<Longrightarrow> live_before insn A \<subseteq> live_before insn B"
  by (auto simp: live_before_def)

lemma live_through_mono: "A \<subseteq> B \<Longrightarrow> live_through xs A \<subseteq> live_through xs B"
  by (induction xs arbitrary: A B) (auto dest: live_before_mono)

lemma scan_instructions_phis:
  "scan_instructions phi_ops xs st = (done, demands, phis, st')
     \<Longrightarrow> phis = dropWhile (\<lambda>i. \<not> is_phi i) xs
       \<and> length done = length (takeWhile (\<lambda>i. \<not> is_phi i) xs)
       \<and> length demands = length done"
proof (induction xs arbitrary: st "done" demands phis st')
  case Nil
  then show ?case by simp
next
  case (Cons x xs)
  show ?case
  proof (cases "is_phi x")
    case True
    with Cons.prems show ?thesis by auto
  next
    case False
    obtain x' st1 where p: "process_instruction phi_ops x st = (x', st1)"
      by (cases "process_instruction phi_ops x st")
    obtain d2 dm2 ph2 st2 where r: "scan_instructions phi_ops xs st1 = (d2, dm2, ph2, st2)"
      by (cases "scan_instructions phi_ops xs st1") auto
    from Cons.prems False p r have "done = x' # d2" "demands = snapshot st1 # dm2" "phis = ph2"
      by simp_all
    then show ?thesis using Cons.IH [OF r] False by simp
  qed
qed

lemma process_phi_definitions_live:
  "process_phi_definitions phis st = Inr (phis', st')
     \<Longrightarrow> live_set st' = live_set st - phi_def_ids phis
       \<and> new_demand st' = new_demand st
       \<and> length phis' = length phis"
proof (induction phis arbitrary: st phis' st')
  case Nil
  then show ?case by (simp add: phi_def_ids_def)
next
  case (Cons x xs)
  from Cons.prems have a: "is_phi x" "length (definitions x) = 1"
    by (auto simp: bindE_Inr_iff assertE_Inr_iff)
  then obtain d where d: "definitions x = [d]"
    by (cases "definitions x") auto
  show ?case
  proof (cases "def_isTemp d")
    case False
    with Cons.prems a d obtain r where
      r: "process_phi_definitions xs st = Inr (r, st')" and "phis' = x # r"
      by (auto simp: bindE_Inr_iff assertE_Inr_iff split: prod.splits)
    with Cons.IH [OF r] False d show ?thesis by (simp add: phi_def_ids_def)
  next
    case True
    define st1 where "st1 = (if (def_isFixed d \<or> def_hasHint d) \<and> def_physReg d = vcc
                 then st\<lparr>vcc_seen := True\<rparr> else st)"
    define st2 where "st2 = st1\<lparr>live_set := live_set st1 - {temp_id (def_temp d)}\<rparr>"
    from Cons.prems a d True obtain r x' where
      r: "process_phi_definitions xs st2 = Inr (r, st')" and ph: "phis' = x' # r"
      by (auto simp: bindE_Inr_iff assertE_Inr_iff Let_def st1_def st2_def split: prod.splits)
    have "live_set st2 = live_set st - {temp_id (def_temp d)}" "new_demand st2 = new_demand st"
      by (simp_all add: st1_def st2_def)
    with Cons.IH [OF r] True d ph show ?thesis
      by (auto simp: phi_def_ids_def)
  qed
qed

lemma pred_grow_refl [simp]: "pred_grow ps ps"
  by (simp add: pred_grow_def)

lemma pred_grow_trans: "pred_grow a b \<Longrightarrow> pred_grow b c \<Longrightarrow> pred_grow a c"
  unfolding pred_grow_def
  apply (intro conjI)
       apply simp
      apply simp
     apply (meson subset_trans)
    apply (meson subset_trans)
   apply auto[1]
  apply (metis subsetD)
  done

lemma pred_grow_vcc [simp]: "pred_grow ps (ps'\<lparr>ps_needs_vcc := v\<rparr>) = pred_grow ps ps'"
  "pred_grow (ps\<lparr>ps_needs_vcc := v\<rparr>) ps' = pred_grow ps ps'"
  by (simp_all add: pred_grow_def)

lemma foldE_invariant:
  assumes "foldE f xs s = Inr s'" and "I s"
    and "\<And>x a b. x \<in> set xs \<Longrightarrow> I a \<Longrightarrow> f x a = Inr b \<Longrightarrow> I b"
  shows "I s'"
  using assms
proof (induction xs arbitrary: s)
  case Nil
  then show ?case by simp
next
  case (Cons x xs)
  from Cons.prems(1) obtain m where m: "f x s = Inr m" "foldE f xs m = Inr s'"
    by (auto simp: bindE_Inr_iff)
  have im: "I m" using Cons.prems(3) [of x s m] Cons.prems(2) m by simp
  show ?case
  proof (rule Cons.IH [OF m(2) im])
    fix y a b
    assume "y \<in> set xs" "I a" "f y a = Inr b"
    then show "I b" using Cons.prems(3) [of y a b] by simp
  qed
qed

lemma merge_into_pred_Inr:
  assumes "merge_into_pred t q ps = Inr ps'"
  shows "q < length (ps_live_out ps)"
    and "ps_live_out ps' = (ps_live_out ps)[q := insert t (ps_live_out ps ! q)]"
    and "ps_worklist ps' = (if t \<in> ps_live_out ps ! q then ps_worklist ps
                             else insert q (ps_worklist ps))"
    and "ps_phi_sgpr_ops ps' = ps_phi_sgpr_ops ps" and "ps_needs_vcc ps' = ps_needs_vcc ps"
  using assms by (auto simp: merge_into_pred_def Let_def split: if_splits)

lemma merge_into_pred_grow:
  assumes "merge_into_pred t q ps = Inr ps'"
  shows "pred_grow ps ps'"
  using merge_into_pred_Inr [OF assms]
  by (auto simp: pred_grow_def nth_list_update split: if_splits)

lemma merge_into_pred_live_out:
  assumes "merge_into_pred t q ps = Inr ps'" and "r < length (ps_live_out ps)"
  shows "ps_live_out ps' ! r = ps_live_out ps ! r \<union> (if r = q then {t} else {})"
  using merge_into_pred_Inr [OF assms(1)] assms(2)
  by (auto simp: nth_list_update)

lemma foldE_merge_into_pred:
  assumes "foldE (merge_into_pred t) qs ps = Inr ps'"
  shows "pred_grow ps ps' \<and> ps_needs_vcc ps' = ps_needs_vcc ps
    \<and> (\<forall>r < length (ps_live_out ps).
          ps_live_out ps' ! r = ps_live_out ps ! r \<union> (if r \<in> set qs then {t} else {}))"
  using assms
proof (induction qs arbitrary: ps)
  case Nil
  then show ?case by simp
next
  case (Cons q qs)
  from Cons.prems obtain m where m: "merge_into_pred t q ps = Inr m"
    "foldE (merge_into_pred t) qs m = Inr ps'"
    by (auto simp: bindE_Inr_iff)
  note g1 = merge_into_pred_grow [OF m(1)]
  note i1 = merge_into_pred_Inr [OF m(1)]
  from Cons.IH [OF m(2)] have g2: "pred_grow m ps'" and v: "ps_needs_vcc ps' = ps_needs_vcc m"
    and l2: "\<forall>r < length (ps_live_out m).
          ps_live_out ps' ! r = ps_live_out m ! r \<union> (if r \<in> set qs then {t} else {})"
    by simp_all
  have len: "length (ps_live_out m) = length (ps_live_out ps)" using i1(2) by simp
  have "ps_live_out ps' ! r = ps_live_out ps ! r \<union> (if r \<in> set (q # qs) then {t} else {})"
    if "r < length (ps_live_out ps)" for r
    using l2 that len merge_into_pred_live_out [OF m(1) that] by auto
  then show ?case using pred_grow_trans [OF g1 g2] v i1(5) by simp
qed

lemma foldE_merge_live_in:
  assumes "foldE (merge_live_in prog block) ts ps = Inr ps'"
  shows "pred_grow ps ps' \<and> ps_needs_vcc ps' = ps_needs_vcc ps
    \<and> (\<forall>r < length (ps_live_out ps).
          ps_live_out ps' ! r
            = ps_live_out ps ! r \<union> {t \<in> set ts. r \<in> set (preds_of_temp prog block t)})"
  using assms
proof (induction ts arbitrary: ps)
  case Nil
  then show ?case by simp
next
  case (Cons t ts)
  from Cons.prems obtain m where m0: "merge_live_in prog block t ps = Inr m"
    and m2: "foldE (merge_live_in prog block) ts m = Inr ps'"
    by (auto simp: bindE_Inr_iff)
  from m0 have m1: "foldE (merge_into_pred t) (preds_of_temp prog block t) ps = Inr m"
    by (simp add: merge_live_in_def preds_of_temp_def Let_def)
  note m = m1 m2
  from foldE_merge_into_pred [OF m(1)] have g1: "pred_grow ps m"
    and v1: "ps_needs_vcc m = ps_needs_vcc ps"
    and l1: "\<forall>r < length (ps_live_out ps). ps_live_out m ! r
          = ps_live_out ps ! r \<union> (if r \<in> set (preds_of_temp prog block t) then {t} else {})"
    by simp_all
  from Cons.IH [OF m(2)] have g2: "pred_grow m ps'" and v2: "ps_needs_vcc ps' = ps_needs_vcc m"
    and l2: "\<forall>r < length (ps_live_out m). ps_live_out ps' ! r
          = ps_live_out m ! r \<union> {t \<in> set ts. r \<in> set (preds_of_temp prog block t)}"
    by simp_all
  have len: "length (ps_live_out m) = length (ps_live_out ps)" using g1 by (simp add: pred_grow_def)
  have "ps_live_out ps' ! r
            = ps_live_out ps ! r \<union> {u \<in> set (t # ts). r \<in> set (preds_of_temp prog block u)}"
    if "r < length (ps_live_out ps)" for r
    using l1 l2 that len by auto
  then show ?case using pred_grow_trans [OF g1 g2] v1 v2 by simp
qed

lemma process_phi_operand_Inr:
  assumes "process_phi_operand lg live pred operand ps = Inr (operand', ps')"
  shows "pred_grow ps ps'"
    and "op_temp operand' = op_temp operand" and "op_isTemp operand' = op_isTemp operand"
    and "\<forall>r < length (ps_live_out ps). ps_live_out ps' ! r
           = ps_live_out ps ! r \<union> (if r = pred \<and> op_isTemp operand then {tempId operand} else {})"
    and "op_isTemp operand \<longrightarrow> pred < length (ps_live_out ps)"
proof -
  show "op_temp operand' = op_temp operand" "op_isTemp operand' = op_isTemp operand"
    using assms
    by (auto simp: process_phi_operand_def Let_def bindE_Inr_iff split: if_splits)
  show "op_isTemp operand \<longrightarrow> pred < length (ps_live_out ps)"
    using assms
    by (auto simp: process_phi_operand_def Let_def bindE_Inr_iff split: if_splits)
  show "\<forall>r < length (ps_live_out ps). ps_live_out ps' ! r
           = ps_live_out ps ! r \<union> (if r = pred \<and> op_isTemp operand then {tempId operand} else {})"
    using assms
    by (auto simp: process_phi_operand_def Let_def bindE_Inr_iff nth_list_update split: if_splits)
  show "pred_grow ps ps'"
  proof (cases "op_isTemp operand")
    case False
    with assms show ?thesis by (simp add: process_phi_operand_def)
  next
    case True
    define ps1 where "ps1 = (if op_isFixed operand \<and> op_physReg operand = vcc
                  then ps\<lparr>ps_needs_vcc := True\<rparr> else ps)"
    have p1: "ps_live_out ps1 = ps_live_out ps" "ps_worklist ps1 = ps_worklist ps"
      "ps_phi_sgpr_ops ps1 = ps_phi_sgpr_ops ps"
      by (simp_all add: ps1_def)
    have g1: "pred_grow ps ps1" by (simp add: ps1_def)
    have "pred_grow ps1 ps'"
      using assms True unfolding process_phi_operand_def Let_def ps1_def [symmetric]
      by (auto simp: bindE_Inr_iff pred_grow_def nth_list_update split: if_splits)
    with g1 show ?thesis by (rule pred_grow_trans)
  qed
qed

lemma phi_uses_simps [simp]:
  "phi_uses [] ops q = {}" "phi_uses preds [] q = {}"
  "phi_uses (pred # preds) (operand # ops) q
     = (if q = pred \<and> op_isTemp operand then {tempId operand} else {}) \<union> phi_uses preds ops q"
  by (auto simp: phi_uses_def)

lemma process_phi_operands_Inr:
  assumes "process_phi_operands lg live preds ops ps = Inr (ops', ps')"
  shows "pred_grow ps ps' \<and> map op_temp ops' = map op_temp ops
    \<and> map op_isTemp ops' = map op_isTemp ops
    \<and> (\<forall>r < length (ps_live_out ps). ps_live_out ps' ! r = ps_live_out ps ! r \<union> phi_uses preds ops r)
    \<and> (\<forall>r. phi_uses preds ops r \<noteq> {} \<longrightarrow> r < length (ps_live_out ps))"
  using assms
proof (induction lg live preds ops ps arbitrary: ops' ps' rule: process_phi_operands.induct)
  case (1 logical live ops ps)
  then show ?case by simp
next
  case (2 logical live pred preds ps)
  then show ?case by simp
next
  case (3 logical live pred preds operand ops ps)
  from "3.prems" obtain o1 m r where m: "process_phi_operand logical live pred operand ps = Inr (o1, m)"
    and r: "process_phi_operands logical live preds ops m = Inr (r, ps')"
    and o: "ops' = o1 # r"
    by (auto simp: bindE_Inr_iff split: prod.splits)
  note s1 = process_phi_operand_Inr [OF m]
  from "3.IH" [OF r] have g2: "pred_grow m ps'"
    and t2: "map op_temp r = map op_temp ops" "map op_isTemp r = map op_isTemp ops"
    and l2: "\<forall>q < length (ps_live_out m). ps_live_out ps' ! q = ps_live_out m ! q \<union> phi_uses preds ops q"
    and b2: "\<forall>q. phi_uses preds ops q \<noteq> {} \<longrightarrow> q < length (ps_live_out m)"
    by simp_all
  have len: "length (ps_live_out m) = length (ps_live_out ps)"
    using s1(1) by (simp add: pred_grow_def)
  have "ps_live_out ps' ! q = ps_live_out ps ! q \<union> phi_uses (pred # preds) (operand # ops) q"
    if "q < length (ps_live_out ps)" for q
    using l2 s1(4) that len by auto
  moreover have "q < length (ps_live_out ps)"
    if "phi_uses (pred # preds) (operand # ops) q \<noteq> {}" for q
    using that b2 s1(5) len by (auto split: if_splits)
  ultimately show ?case
    using pred_grow_trans [OF s1(1) g2] t2 s1(2,3) o by simp
qed

lemma process_phi_Inr:
  assumes "process_phi block live insn ps = Inr (insn', ps')"
  shows "pred_grow ps ps'" and "is_phi insn"
    and "opcode insn' = opcode insn" and "definitions insn' = definitions insn"
    and "map op_temp (operands insn') = map op_temp (operands insn)"
    and "map op_isTemp (operands insn') = map op_isTemp (operands insn)"
    and "\<forall>r < length (ps_live_out ps). ps_live_out ps' ! r
           = ps_live_out ps ! r \<union> phi_uses (phi_preds block insn) (operands insn) r"
    and "\<forall>r. phi_uses (phi_preds block insn) (operands insn) r \<noteq> {}
           \<longrightarrow> r < length (ps_live_out ps)"
proof -
  from assms obtain ops' where a: "is_phi insn"
    and o: "process_phi_operands (opcode insn = p_phi) live (phi_preds block insn)
              (operands insn) ps = Inr (ops', ps')"
    and i: "insn' = insn\<lparr>operands := ops'\<rparr>"
    by (auto simp: process_phi_def bindE_Inr_iff assertE_Inr_iff Let_def phi_preds_def
        split: prod.splits)
  note r = process_phi_operands_Inr [OF o]
  show "pred_grow ps ps'" "is_phi insn" using r a by simp_all
  show "opcode insn' = opcode insn" "definitions insn' = definitions insn" using i by simp_all
  show "map op_temp (operands insn') = map op_temp (operands insn)"
    "map op_isTemp (operands insn') = map op_isTemp (operands insn)" using r i by simp_all
  show "\<forall>r < length (ps_live_out ps). ps_live_out ps' ! r
           = ps_live_out ps ! r \<union> phi_uses (phi_preds block insn) (operands insn) r"
    using r by simp
  show "\<forall>r. phi_uses (phi_preds block insn) (operands insn) r \<noteq> {}
           \<longrightarrow> r < length (ps_live_out ps)"
    using r by simp
qed

lemma phis_uses_simps [simp]:
  "phis_uses block [] q = {}"
  "phis_uses block (insn # phis) q
     = phi_uses (phi_preds block insn) (operands insn) q \<union> phis_uses block phis q"
  by (simp_all add: phis_uses_def)

lemma process_phis_Inr:
  assumes "process_phis block live phis ps = Inr (phis', ps')"
  shows "pred_grow ps ps' \<and> length phis' = length phis
    \<and> map opcode phis' = map opcode phis \<and> map definitions phis' = map definitions phis
    \<and> (\<forall>r < length (ps_live_out ps). ps_live_out ps' ! r = ps_live_out ps ! r \<union> phis_uses block phis r)
    \<and> (\<forall>r. phis_uses block phis r \<noteq> {} \<longrightarrow> r < length (ps_live_out ps))"
  using assms
proof (induction phis arbitrary: ps phis' ps')
  case Nil
  then show ?case by simp
next
  case (Cons x xs)
  from Cons.prems obtain x' m r where m: "process_phi block live x ps = Inr (x', m)"
    and r: "process_phis block live xs m = Inr (r, ps')" and p: "phis' = x' # r"
    by (auto simp: bindE_Inr_iff split: prod.splits)
  note s1 = process_phi_Inr [OF m]
  from Cons.IH [OF r] have g2: "pred_grow m ps'" and len2: "length r = length xs"
    and e2: "map opcode r = map opcode xs" "map definitions r = map definitions xs"
    and l2: "\<forall>q < length (ps_live_out m). ps_live_out ps' ! q = ps_live_out m ! q \<union> phis_uses block xs q"
    and b2: "\<forall>q. phis_uses block xs q \<noteq> {} \<longrightarrow> q < length (ps_live_out m)"
    by simp_all
  have len: "length (ps_live_out m) = length (ps_live_out ps)"
    using s1(1) by (simp add: pred_grow_def)
  have "ps_live_out ps' ! q = ps_live_out ps ! q \<union> phis_uses block (x # xs) q"
    if "q < length (ps_live_out ps)" for q
    using l2 s1(7) that len by auto
  moreover have "q < length (ps_live_out ps)" if "phis_uses block (x # xs) q \<noteq> {}" for q
    using that b2 s1(8) len by auto
  ultimately show ?case
    using pred_grow_trans [OF s1(1) g2] len2 e2 s1(3,4) p by simp
qed

lemma process_phi_definitions_same:
  "process_phi_definitions phis st = Inr (phis', st')
     \<Longrightarrow> map opcode phis' = map opcode phis \<and> map operands phis' = map operands phis"
proof (induction phis arbitrary: st phis' st')
  case Nil
  then show ?case by simp
next
  case (Cons x xs)
  from Cons.prems obtain x' r stm where r: "process_phi_definitions xs stm = Inr (r, st')"
    and p: "phis' = x' # r" and x': "opcode x' = opcode x" "operands x' = operands x"
    by (auto simp: bindE_Inr_iff assertE_Inr_iff Let_def split: prod.splits if_splits)
  with Cons.IH [OF r] show ?case by simp
qed

lemma phis_uses_cong:
  assumes "map opcode a = map opcode b" and "map operands a = map operands b"
  shows "phis_uses block a q = phis_uses block b q"
  using assms
proof (induction a arbitrary: b)
  case Nil
  then show ?case by simp
next
  case (Cons x xs)
  then obtain y ys where b: "b = y # ys" by (cases b) auto
  with Cons.prems have "opcode x = opcode y" "operands x = operands y"
    "map opcode xs = map opcode ys" "map operands xs = map operands ys" by simp_all
  with Cons.IH [of ys] b show ?case by (simp add: phi_preds_def)
qed

lemma process_block_unfold:
  assumes "process_live_temps_per_block s b = Inr s'"
  shows "\<exists>done demands phis st phis1 st1 ps1 phis2 ps2.
      index (blocks (lv_program s) ! b) < length (live_register_demand (lv_lives s))
    \<and> index (blocks (lv_program s) ! b) < length (live_out (lv_lives s))
    \<and> index (blocks (lv_program s) ! b) < length (lv_phi_sgpr_ops s)
    \<and> scan_instructions (lv_phi_sgpr_ops s ! index (blocks (lv_program s) ! b))
         (rev (instructions (blocks (lv_program s) ! b))) (scan_start s b)
         = (done, demands, phis, st)
    \<and> process_phi_definitions phis st = Inr (phis1, st1)
    \<and> foldE (merge_live_in (lv_program s) (blocks (lv_program s) ! b))
         (sorted_list_of_set (live_set st1)) (pred_start s (vcc_seen st1)) = Inr ps1
    \<and> process_phis (blocks (lv_program s) ! b) (live_set st1) phis1 ps1 = Inr (phis2, ps2)
    \<and> (index (blocks (lv_program s) ! b) \<noteq> 0
         \<or> (new_demand st1 = RegisterDemand0 \<and> live_set st1 = {}))
    \<and> s' = block_result s b done demands phis2 st st1 ps2"
proof -
  obtain d dm ph st where sc: "scan_instructions (lv_phi_sgpr_ops s ! index (blocks (lv_program s) ! b))
         (rev (instructions (blocks (lv_program s) ! b))) (scan_start s b) = (d, dm, ph, st)"
    by (cases "scan_instructions (lv_phi_sgpr_ops s ! index (blocks (lv_program s) ! b))
         (rev (instructions (blocks (lv_program s) ! b))) (scan_start s b)") auto
  have sc': "scan_instructions (lv_phi_sgpr_ops s ! index (blocks (lv_program s) ! b))
         (rev (instructions (blocks (lv_program s) ! b)))
         \<lparr>live_set = live_out (lv_lives s) ! index (blocks (lv_program s) ! b),
          new_demand = (initial_demand (lv_program s)
              (live_out (lv_lives s) ! index (blocks (lv_program s) ! b)))
            \<lparr>sgpr := sgpr (initial_demand (lv_program s)
                (live_out (lv_lives s) ! index (blocks (lv_program s) ! b)))
              - int (lv_phi_sgpr_ops s ! index (blocks (lv_program s) ! b))\<rparr>,
          snapshot = RegisterDemand0, block_register_demand = RegisterDemand0,
          vcc_seen = needs_vcc (lv_program s)\<rparr> = (d, dm, ph, st)"
    using sc by (simp add: scan_start_def Let_def)
  from assms have b: "index (blocks (lv_program s) ! b) < length (live_register_demand (lv_lives s))"
    "index (blocks (lv_program s) ! b) < length (live_out (lv_lives s))"
    "index (blocks (lv_program s) ! b) < length (lv_phi_sgpr_ops s)"
    by (auto simp: process_live_temps_per_block_def Let_def split: if_splits)
  from assms b obtain phis1 st1 ps1 phis2 ps2 where
      "process_phi_definitions ph st = Inr (phis1, st1)"
      "foldE (merge_live_in (lv_program s) (blocks (lv_program s) ! b))
         (sorted_list_of_set (live_set st1)) (pred_start s (vcc_seen st1)) = Inr ps1"
      "process_phis (blocks (lv_program s) ! b) (live_set st1) phis1 ps1 = Inr (phis2, ps2)"
      "index (blocks (lv_program s) ! b) \<noteq> 0
         \<or> (new_demand st1 = RegisterDemand0 \<and> live_set st1 = {})"
      "s' = block_result s b d dm phis2 st st1 ps2"
    unfolding process_live_temps_per_block_def Let_def sc' pred_start_def block_result_def
    by (auto simp: bindE_Inr_iff assertE_Inr_iff split: prod.splits)
  with b sc show ?thesis by blast
qed

lemma scan_start_live [simp]:
  "live_set (scan_start s b) = live_out (lv_lives s) ! index (blocks (lv_program s) ! b)"
  by (simp add: scan_start_def Let_def)

lemma pred_start_simps [simp]:
  "ps_live_out (pred_start s v) = live_out (lv_lives s)"
  "ps_worklist (pred_start s v) = lv_worklist s"
  "ps_phi_sgpr_ops (pred_start s v) = lv_phi_sgpr_ops s"
  "ps_needs_vcc (pred_start s v) = v"
  by (simp_all add: pred_start_def)

lemma block_result_simps [simp]:
  "live_out (lv_lives (block_result s b d dm ph st st1 ps)) = ps_live_out ps"
  "lv_worklist (block_result s b d dm ph st st1 ps) = ps_worklist ps"
  "lv_phi_sgpr_ops (block_result s b d dm ph st st1 ps) = ps_phi_sgpr_ops ps"
  "lv_new_demand (block_result s b d dm ph st st1 ps) = lv_new_demand s"
  by (simp_all add: block_result_def Let_def)

text \<open>What the step stores in the live-out sets, with the list of the live-ins it merged.\<close>

lemma process_block_live_out_list:
  assumes r: "process_live_temps_per_block s b = Inr s'"
  shows "\<exists>L. L = live_through (rev (instructions (blocks (lv_program s) ! b)))
                 (live_out (lv_lives s) ! index (blocks (lv_program s) ! b))
               - phi_def_ids (block_phis (blocks (lv_program s) ! b))
    \<and> length (live_out (lv_lives s')) = length (live_out (lv_lives s))
    \<and> (\<forall>q < length (live_out (lv_lives s)).
          live_out (lv_lives s') ! q
            = live_out (lv_lives s) ! q
              \<union> {t \<in> set (sorted_list_of_set L).
                    q \<in> set (preds_of_temp (lv_program s) (blocks (lv_program s) ! b) t)}
              \<union> phis_uses (blocks (lv_program s) ! b) (block_phis (blocks (lv_program s) ! b)) q)"
proof -
  define block where "block = blocks (lv_program s) ! b"
  from process_block_unfold [OF r, folded block_def]
  obtain d dm phis st phis1 st1 ps1 phis2 ps2 where
    sc: "scan_instructions (lv_phi_sgpr_ops s ! index block) (rev (instructions block))
           (scan_start s b) = (d, dm, phis, st)"
    and pd: "process_phi_definitions phis st = Inr (phis1, st1)"
    and mg: "foldE (merge_live_in (lv_program s) block) (sorted_list_of_set (live_set st1))
           (pred_start s (vcc_seen st1)) = Inr ps1"
    and pp: "process_phis block (live_set st1) phis1 ps1 = Inr (phis2, ps2)"
    and s': "s' = block_result s b d dm phis2 st st1 ps2"
    by blast
  have ph: "phis = block_phis block"
    using scan_instructions_phis [OF sc] by (simp add: block_phis_def)
  have l0: "live_set st = live_through (rev (instructions block)) (live_out (lv_lives s) ! index block)"
    using scan_instructions_live [OF sc] by (simp add: block_def)
  have l1: "live_set st1 = live_through (rev (instructions block))
       (live_out (lv_lives s) ! index block) - phi_def_ids (block_phis block)"
    using process_phi_definitions_live [OF pd] l0 ph by simp
  note m = foldE_merge_live_in [OF mg]
  note p = process_phis_Inr [OF pp]
  have len1: "length (ps_live_out ps1) = length (live_out (lv_lives s))"
    using m by (simp add: pred_grow_def)
  have len2: "length (ps_live_out ps2) = length (live_out (lv_lives s))"
    using p len1 by (simp add: pred_grow_def)
  have u: "phis_uses block phis1 q = phis_uses block (block_phis block) q" for q
    using process_phi_definitions_same [OF pd] ph by (intro phis_uses_cong) simp_all
  have "live_out (lv_lives s') ! q
            = live_out (lv_lives s) ! q
              \<union> {t \<in> set (sorted_list_of_set (live_set st1)).
                    q \<in> set (preds_of_temp (lv_program s) block t)}
              \<union> phis_uses block (block_phis block) q"
    if "q < length (live_out (lv_lives s))" for q
    using m p that len1 u by (simp add: s')
  then show ?thesis using len2 l1 by (simp add: s' block_def)
qed

lemma phi_uses_subset_preds: "phi_uses preds ops q \<noteq> {} \<Longrightarrow> q \<in> set preds"
  by (auto simp: phi_uses_def dest: set_zip_leftD)

lemma phis_uses_subset_preds:
  assumes "phis_uses block phis q \<noteq> {}"
  shows "q \<in> set (logical_preds block) \<union> set (linear_preds block)"
proof -
  from assms obtain insn where "phi_uses (phi_preds block insn) (operands insn) q \<noteq> {}"
    by (auto simp: phis_uses_def)
  then have "q \<in> set (phi_preds block insn)" by (rule phi_uses_subset_preds)
  then show ?thesis by (simp add: phi_preds_def split: if_splits)
qed

lemma finite_def_ids [simp]: "finite (def_ids ds)"
  by (induction ds) simp_all

lemma finite_use_ids [simp]: "finite (use_ids os)"
  by (induction os) simp_all

lemma finite_live_before [simp]: "finite L \<Longrightarrow> finite (live_before insn L)"
  by (simp add: live_before_def)

lemma finite_live_through: "finite L \<Longrightarrow> finite (live_through xs L)"
  by (induction xs arbitrary: L) simp_all

lemma finite_block_live_in: "finite S \<Longrightarrow> finite (block_live_in block S)"
  by (simp add: block_live_in_def finite_live_through)

lemma block_live_in_mono: "A \<subseteq> B \<Longrightarrow> block_live_in block A \<subseteq> block_live_in block B"
  using live_through_mono [of A B] by (auto simp: block_live_in_def)

lemma propagated_mono: "A \<subseteq> B \<Longrightarrow> propagated prog block A q \<subseteq> propagated prog block B q"
  using block_live_in_mono [of A B block] by (auto simp: propagated_def)

lemma propagated_preds:
  "propagated prog block S q \<noteq> {}
     \<Longrightarrow> q \<in> set (logical_preds block) \<union> set (linear_preds block)"
  using phis_uses_subset_preds [of block "block_phis block" q]
  by (auto simp: propagated_def preds_of_temp_def split: if_splits)

lemma process_block_live_out:
  assumes r: "process_live_temps_per_block s b = Inr s'"
    and f: "finite (live_out (lv_lives s) ! index (blocks (lv_program s) ! b))"
  shows "length (live_out (lv_lives s')) = length (live_out (lv_lives s))"
    and "q < length (live_out (lv_lives s)) \<Longrightarrow>
          live_out (lv_lives s') ! q
            = live_out (lv_lives s) ! q
              \<union> propagated (lv_program s) (blocks (lv_program s) ! b)
                  (live_out (lv_lives s) ! index (blocks (lv_program s) ! b)) q"
proof -
  from process_block_live_out_list [OF r] obtain L where
    L: "L = block_live_in (blocks (lv_program s) ! b)
              (live_out (lv_lives s) ! index (blocks (lv_program s) ! b))"
    and len: "length (live_out (lv_lives s')) = length (live_out (lv_lives s))"
    and l: "\<forall>q < length (live_out (lv_lives s)).
          live_out (lv_lives s') ! q
            = live_out (lv_lives s) ! q
              \<union> {t \<in> set (sorted_list_of_set L).
                    q \<in> set (preds_of_temp (lv_program s) (blocks (lv_program s) ! b) t)}
              \<union> phis_uses (blocks (lv_program s) ! b) (block_phis (blocks (lv_program s) ! b)) q"
    unfolding block_live_in_def by blast
  have "finite L" using f L by (simp add: finite_block_live_in)
  then have "set (sorted_list_of_set L) = L" by simp
  with l L show "q < length (live_out (lv_lives s)) \<Longrightarrow>
          live_out (lv_lives s') ! q
            = live_out (lv_lives s) ! q
              \<union> propagated (lv_program s) (blocks (lv_program s) ! b)
                  (live_out (lv_lives s) ! index (blocks (lv_program s) ! b)) q"
    by (auto simp: propagated_def)
  show "length (live_out (lv_lives s')) = length (live_out (lv_lives s))" by (rule len)
qed

lemma process_block_frame_list:
  assumes r: "process_live_temps_per_block s b = Inr s'"
  shows "length (live_out (lv_lives s')) = length (live_out (lv_lives s))"
    and "q < length (live_out (lv_lives s)) \<Longrightarrow> live_out (lv_lives s) ! q \<subseteq> live_out (lv_lives s') ! q"
    and "q < length (live_out (lv_lives s)) \<Longrightarrow>
           q \<notin> set (logical_preds (blocks (lv_program s) ! b))
                \<union> set (linear_preds (blocks (lv_program s) ! b))
           \<Longrightarrow> live_out (lv_lives s') ! q = live_out (lv_lives s) ! q"
proof -
  from process_block_live_out_list [OF r] obtain L where
    len: "length (live_out (lv_lives s')) = length (live_out (lv_lives s))"
    and l: "\<forall>q < length (live_out (lv_lives s)).
          live_out (lv_lives s') ! q
            = live_out (lv_lives s) ! q
              \<union> {t \<in> set (sorted_list_of_set L).
                    q \<in> set (preds_of_temp (lv_program s) (blocks (lv_program s) ! b) t)}
              \<union> phis_uses (blocks (lv_program s) ! b) (block_phis (blocks (lv_program s) ! b)) q"
    by blast
  show "length (live_out (lv_lives s')) = length (live_out (lv_lives s))" by (rule len)
  show "q < length (live_out (lv_lives s)) \<Longrightarrow> live_out (lv_lives s) ! q \<subseteq> live_out (lv_lives s') ! q"
    using l by auto
  show "q < length (live_out (lv_lives s)) \<Longrightarrow>
           q \<notin> set (logical_preds (blocks (lv_program s) ! b))
                \<union> set (linear_preds (blocks (lv_program s) ! b))
           \<Longrightarrow> live_out (lv_lives s') ! q = live_out (lv_lives s) ! q"
    using l phis_uses_subset_preds [of "blocks (lv_program s) ! b"
        "block_phis (blocks (lv_program s) ! b)" q]
    by (auto simp: preds_of_temp_def split: if_splits)
qed

lemma process_block_fold:
  assumes "index (blocks (lv_program s) ! b) < length (live_register_demand (lv_lives s))"
    and "index (blocks (lv_program s) ! b) < length (live_out (lv_lives s))"
    and "index (blocks (lv_program s) ! b) < length (lv_phi_sgpr_ops s)"
    and "scan_instructions (lv_phi_sgpr_ops s ! index (blocks (lv_program s) ! b))
           (rev (instructions (blocks (lv_program s) ! b))) (scan_start s b)
         = (done, demands, phis, st)"
    and "process_phi_definitions phis st = Inr (phis1, st1)"
    and "foldE (merge_live_in (lv_program s) (blocks (lv_program s) ! b))
           (sorted_list_of_set (live_set st1)) (pred_start s (vcc_seen st1)) = Inr ps1"
    and "process_phis (blocks (lv_program s) ! b) (live_set st1) phis1 ps1 = Inr (phis2, ps2)"
    and "index (blocks (lv_program s) ! b) \<noteq> 0
           \<or> (new_demand st1 = RegisterDemand0 \<and> live_set st1 = {})"
  shows "process_live_temps_per_block s b = Inr (block_result s b done demands phis2 st st1 ps2)"
proof -
  have sc': "scan_instructions (lv_phi_sgpr_ops s ! index (blocks (lv_program s) ! b))
         (rev (instructions (blocks (lv_program s) ! b)))
         \<lparr>live_set = live_out (lv_lives s) ! index (blocks (lv_program s) ! b),
          new_demand = (initial_demand (lv_program s)
              (live_out (lv_lives s) ! index (blocks (lv_program s) ! b)))
            \<lparr>sgpr := sgpr (initial_demand (lv_program s)
                (live_out (lv_lives s) ! index (blocks (lv_program s) ! b)))
              - int (lv_phi_sgpr_ops s ! index (blocks (lv_program s) ! b))\<rparr>,
          snapshot = RegisterDemand0, block_register_demand = RegisterDemand0,
          vcc_seen = needs_vcc (lv_program s)\<rparr> = (done, demands, phis, st)"
    using assms(4) by (simp add: scan_start_def Let_def)
  show ?thesis
    unfolding process_live_temps_per_block_def Let_def sc'
    using assms(1,2,3,5,6,7,8)
    by (auto simp: pred_start_def block_result_def Let_def assertE_def)
qed

subsection \<open>Demand arithmetic\<close>

lemma demand_eqI: "vgpr a = vgpr b \<Longrightarrow> sgpr a = sgpr b \<Longrightarrow> a = (b :: RegisterDemand)"
  by simp

lemma demand_fields [simp]:
  "vgpr (demand_add a b) = vgpr a + vgpr b" "sgpr (demand_add a b) = sgpr a + sgpr b"
  "vgpr (demand_sub a b) = vgpr a - vgpr b" "sgpr (demand_sub a b) = sgpr a - sgpr b"
  "vgpr RegisterDemand0 = 0" "sgpr RegisterDemand0 = 0"
  by (simp_all add: demand_add_def demand_sub_def RegisterDemand0_def)

lemma demand_temp_fields [simp]:
  "vgpr (demand_add_temp d t) = vgpr d + vgpr (temp_demand t)"
  "sgpr (demand_add_temp d t) = sgpr d + sgpr (temp_demand t)"
  "vgpr (demand_sub_temp d t) = vgpr d - vgpr (temp_demand t)"
  "sgpr (demand_sub_temp d t) = sgpr d - sgpr (temp_demand t)"
  by (simp_all add: demand_add_temp_def demand_sub_temp_def temp_demand_def RegisterDemand0_def)

lemma temp_demand_fields:
  "vgpr (temp_demand t) = (if type_of_temp t = RegType_sgpr then 0 else int (size_of_temp t))"
  "sgpr (temp_demand t) = (if type_of_temp t = RegType_sgpr then int (size_of_temp t) else 0)"
  by (simp_all add: temp_demand_def demand_add_temp_def RegisterDemand0_def)

text \<open>A fold that adds or subtracts a demand per element, from any start.\<close>

lemma fold_demand_add:
  assumes "\<And>x a. f x a = demand_add a (g x)"
  shows "fold f xs a = demand_add a (fold f xs RegisterDemand0)"
proof (induction xs arbitrary: a)
  case Nil
  show ?case by (intro demand_eqI; simp)
next
  case (Cons x xs)
  have "fold f (x # xs) a = fold f xs (f x a)" by simp
  also have "\<dots> = demand_add (f x a) (fold f xs RegisterDemand0)" by (rule Cons.IH)
  also have "\<dots> = demand_add (demand_add a (g x)) (fold f xs RegisterDemand0)"
    by (simp only: assms)
  also have "\<dots> = demand_add a (demand_add (demand_add RegisterDemand0 (g x))
                                     (fold f xs RegisterDemand0))"
    by (intro demand_eqI; simp)
  also have "\<dots> = demand_add a (demand_add (f x RegisterDemand0) (fold f xs RegisterDemand0))"
    by (simp only: assms)
  also have "\<dots> = demand_add a (fold f xs (f x RegisterDemand0))"
    by (simp only: Cons.IH [of "f x RegisterDemand0", symmetric])
  also have "\<dots> = demand_add a (fold f (x # xs) RegisterDemand0)" by simp
  finally show ?case .
qed

lemma fold_demand_sub:
  assumes "\<And>x a. f x a = demand_sub a (g x)"
  shows "fold f xs a = demand_sub a (demand_sub RegisterDemand0 (fold f xs RegisterDemand0))"
proof (induction xs arbitrary: a)
  case Nil
  show ?case by (intro demand_eqI; simp)
next
  case (Cons x xs)
  let ?F = "demand_sub RegisterDemand0 (fold f xs RegisterDemand0)"
  have "fold f (x # xs) a = fold f xs (f x a)" by simp
  also have "\<dots> = demand_sub (f x a) ?F" by (rule Cons.IH)
  also have "\<dots> = demand_sub (demand_sub a (g x)) ?F" by (simp only: assms)
  also have "\<dots> = demand_sub a (demand_sub RegisterDemand0
       (demand_sub (demand_sub RegisterDemand0 (g x)) ?F))"
    by (intro demand_eqI; simp)
  also have "\<dots> = demand_sub a (demand_sub RegisterDemand0
       (demand_sub (f x RegisterDemand0) ?F))"
    by (simp only: assms)
  also have "\<dots> = demand_sub a (demand_sub RegisterDemand0 (fold f xs (f x RegisterDemand0)))"
    by (simp only: Cons.IH [of "f x RegisterDemand0", symmetric])
  also have "\<dots> = demand_sub a (demand_sub RegisterDemand0 (fold f (x # xs) RegisterDemand0))"
    by simp
  finally show ?case .
qed

lemma live_def_demand_simps [simp]:
  "live_def_demand [] = RegisterDemand0"
  "live_def_demand (d # ds) =
     demand_add (if def_isTemp d \<and> \<not> def_isKill d then temp_demand (def_temp d) else RegisterDemand0)
       (live_def_demand ds)"
proof -
  show "live_def_demand [] = RegisterDemand0" by (simp add: live_def_demand_def)
  let ?f = "\<lambda>def changes. if \<not> def_isTemp def \<or> def_isKill def then changes
            else demand_add_temp changes (def_temp def)"
  have "fold ?f ds a = demand_add a (fold ?f ds RegisterDemand0)" for a
    by (rule fold_demand_add [where g = "\<lambda>d. if def_isTemp d \<and> \<not> def_isKill d
          then temp_demand (def_temp d) else RegisterDemand0"]) (intro demand_eqI; simp)
  from this [of "?f d RegisterDemand0"]
  show "live_def_demand (d # ds) =
     demand_add (if def_isTemp d \<and> \<not> def_isKill d then temp_demand (def_temp d) else RegisterDemand0)
       (live_def_demand ds)"
    by (simp add: live_def_demand_def)
qed

lemma dead_def_demand_simps [simp]:
  "dead_def_demand [] = RegisterDemand0"
  "dead_def_demand (d # ds) =
     demand_add (if def_isTemp d \<and> def_isKill d then temp_demand (def_temp d) else RegisterDemand0)
       (dead_def_demand ds)"
proof -
  show "dead_def_demand [] = RegisterDemand0" by (simp add: dead_def_demand_def)
  let ?f = "\<lambda>def temp_registers.
            if \<not> def_isTemp def then temp_registers
            else if def_isKill def then demand_add_temp temp_registers (def_temp def)
            else temp_registers"
  have "fold ?f ds a = demand_add a (fold ?f ds RegisterDemand0)" for a
    by (rule fold_demand_add [where g = "\<lambda>d. if def_isTemp d \<and> def_isKill d
          then temp_demand (def_temp d) else RegisterDemand0"]) (intro demand_eqI; simp)
  from this [of "?f d RegisterDemand0"]
  show "dead_def_demand (d # ds) =
     demand_add (if def_isTemp d \<and> def_isKill d then temp_demand (def_temp d) else RegisterDemand0)
       (dead_def_demand ds)"
    by (simp add: dead_def_demand_def)
qed

lemma first_kill_demand_simps [simp]:
  "first_kill_demand [] = RegisterDemand0"
  "first_kill_demand (x # xs) =
     demand_add (if op_isTemp x \<and> isFirstKill x then temp_demand (op_temp x) else RegisterDemand0)
       (first_kill_demand xs)"
proof -
  show "first_kill_demand [] = RegisterDemand0" by (simp add: first_kill_demand_def)
  let ?f = "\<lambda>op d. if op_isTemp op \<and> isFirstKill op then demand_add_temp d (op_temp op) else d"
  have "fold ?f xs a = demand_add a (fold ?f xs RegisterDemand0)" for a
    by (rule fold_demand_add [where g = "\<lambda>x. if op_isTemp x \<and> isFirstKill x
          then temp_demand (op_temp x) else RegisterDemand0"]) (intro demand_eqI; simp)
  from this [of "?f x RegisterDemand0"]
  show "first_kill_demand (x # xs) =
     demand_add (if op_isTemp x \<and> isFirstKill x then temp_demand (op_temp x) else RegisterDemand0)
       (first_kill_demand xs)"
    by (simp add: first_kill_demand_def)
qed

lemma late_kill_demand_simps [simp]:
  "late_kill_demand [] = RegisterDemand0"
  "late_kill_demand (x # xs) =
     demand_add (if op_isTemp x \<and> op_isLateKill x \<and> isFirstKill x
                 then temp_demand (op_temp x) else RegisterDemand0)
       (late_kill_demand xs)"
proof -
  show "late_kill_demand [] = RegisterDemand0" by (simp add: late_kill_demand_def)
  let ?f = "\<lambda>op d. if op_isTemp op \<and> op_isLateKill op \<and> isFirstKill op
                   then demand_add_temp d (op_temp op) else d"
  have "fold ?f xs a = demand_add a (fold ?f xs RegisterDemand0)" for a
    by (rule fold_demand_add [where g = "\<lambda>x. if op_isTemp x \<and> op_isLateKill x \<and> isFirstKill x
          then temp_demand (op_temp x) else RegisterDemand0"]) (intro demand_eqI; simp)
  from this [of "?f x RegisterDemand0"]
  show "late_kill_demand (x # xs) =
     demand_add (if op_isTemp x \<and> op_isLateKill x \<and> isFirstKill x
                 then temp_demand (op_temp x) else RegisterDemand0)
       (late_kill_demand xs)"
    by (simp add: late_kill_demand_def)
qed

text \<open>The two functions of the source, by their halves.\<close>

lemma get_live_changes_split:
  "get_live_changes insn
     = demand_sub (live_def_demand (definitions insn)) (first_kill_demand (operands insn))"
proof -
  let ?f = "\<lambda>op changes. if \<not> op_isTemp op \<or> \<not> isFirstKill op then changes
            else demand_sub_temp changes (op_temp op)"
  let ?h = "\<lambda>op d. if op_isTemp op \<and> isFirstKill op then demand_add_temp d (op_temp op) else d"
  have a: "fold ?f xs a = demand_sub a (demand_sub RegisterDemand0 (fold ?f xs RegisterDemand0))"
    for xs a
    by (rule fold_demand_sub [where g = "\<lambda>x. if op_isTemp x \<and> isFirstKill x
          then temp_demand (op_temp x) else RegisterDemand0"]) (intro demand_eqI; simp)
  have b: "demand_sub RegisterDemand0 (fold ?f xs RegisterDemand0) = first_kill_demand xs" for xs
  proof (induction xs)
    case Nil
    show ?case by (intro demand_eqI; simp)
  next
    case (Cons x xs)
    have "fold ?f (x # xs) RegisterDemand0
        = demand_sub (?f x RegisterDemand0) (first_kill_demand xs)"
      using a [of xs "?f x RegisterDemand0"] Cons.IH by simp
    then show ?case by (intro demand_eqI; simp)
  qed
  show ?thesis
    unfolding get_live_changes_def Let_def live_def_demand_def [symmetric]
    using a [of "operands insn" "live_def_demand (definitions insn)"] b [of "operands insn"]
    by simp
qed

lemma get_temp_registers_split:
  "get_temp_registers insn
     = demand_add (dead_def_demand (definitions insn)) (late_kill_demand (operands insn))"
proof -
  let ?f = "\<lambda>op d. if op_isTemp op \<and> op_isLateKill op \<and> isFirstKill op
                   then demand_add_temp d (op_temp op) else d"
  have "fold ?f xs a = demand_add a (fold ?f xs RegisterDemand0)" for xs a
    by (rule fold_demand_add [where g = "\<lambda>x. if op_isTemp x \<and> op_isLateKill x \<and> isFirstKill x
          then temp_demand (op_temp x) else RegisterDemand0"]) (intro demand_eqI; simp)
  from this [of "operands insn" "dead_def_demand (definitions insn)"]
  show ?thesis
    unfolding get_temp_registers_def Let_def dead_def_demand_def [symmetric]
      late_kill_demand_def [symmetric]
    by simp
qed

subsection \<open>The per-block step on the example program\<close>

lemmas two_block_eval =
  initial_state_def two_block_program_def
  example_program_def use_block_def def_block_def logical_end_def mk_op_def mk_def_def
  v1_rc_def s2_rc_def Let_def initial_demand_def RegisterDemand0_def process_instruction_def
  process_definition_def is_phi_def assertE_def merge_live_in_def merge_into_pred_def
  demand_update_def demand_add_temp_def demand_sub_temp_def setKill_def setFirstKill_def
  mark_later_operand_def tempId_def with_live_out_def scan_start_def pred_start_def
  type_of_temp_def size_of_temp_def

lemma two_block_scan_use:
  "\<exists>done demands st.
     scan_instructions
       (lv_phi_sgpr_ops (initial_state two_block_program)
          ! index (blocks (lv_program (initial_state two_block_program)) ! 1))
       (rev (instructions (blocks (lv_program (initial_state two_block_program)) ! 1)))
       (scan_start (initial_state two_block_program) 1) = (done, demands, [], st)
     \<and> live_set st = {1} \<and> \<not> vcc_seen st"
  by (simp add: two_block_eval)

lemma two_block_step_use:
  "\<exists>s'. process_live_temps_per_block (initial_state two_block_program) 1 = Inr s'
     \<and> live_out (lv_lives s') = [{1}, {}]"
proof -
  let ?s = "initial_state two_block_program"
  from two_block_scan_use obtain d dm st where
    sc: "scan_instructions (lv_phi_sgpr_ops ?s ! index (blocks (lv_program ?s) ! 1))
       (rev (instructions (blocks (lv_program ?s) ! 1))) (scan_start ?s 1) = (d, dm, [], st)"
    and st: "live_set st = {1}" "\<not> vcc_seen st" by blast
  have b: "index (blocks (lv_program ?s) ! 1) < length (live_register_demand (lv_lives ?s))"
    "index (blocks (lv_program ?s) ! 1) < length (live_out (lv_lives ?s))"
    "index (blocks (lv_program ?s) ! 1) < length (lv_phi_sgpr_ops ?s)"
    "index (blocks (lv_program ?s) ! 1) \<noteq> 0 \<or> (new_demand st = RegisterDemand0 \<and> live_set st = {})"
    by (simp_all add: initial_state_def two_block_program_def use_block_def)
  have pd: "process_phi_definitions [] st = Inr ([], st)" by simp
  have mg: "foldE (merge_live_in (lv_program ?s) (blocks (lv_program ?s) ! 1))
           (sorted_list_of_set (live_set st)) (pred_start ?s (vcc_seen st))
       = Inr \<lparr>ps_live_out = [{1}, {}], ps_worklist = {0, 1}, ps_phi_sgpr_ops = [0, 0],
              ps_needs_vcc = False\<rparr>"
    by (simp add: st two_block_eval)
  have pp: "process_phis (blocks (lv_program ?s) ! 1) (live_set st) []
       \<lparr>ps_live_out = [{1}, {}], ps_worklist = {0, 1}, ps_phi_sgpr_ops = [0, 0],
              ps_needs_vcc = False\<rparr>
       = Inr ([], \<lparr>ps_live_out = [{1}, {}], ps_worklist = {0, 1}, ps_phi_sgpr_ops = [0, 0],
              ps_needs_vcc = False\<rparr>)" by simp
  from process_block_fold [OF b(1-3) sc pd mg pp b(4)] show ?thesis by simp
qed

lemma two_block_scan_use_more:
  "\<exists>done demands st.
     scan_instructions
       (lv_phi_sgpr_ops (with_live_out (initial_state two_block_program) [{}, {3}])
          ! index (blocks (lv_program (with_live_out (initial_state two_block_program)
                                          [{}, {3}])) ! 1))
       (rev (instructions (blocks (lv_program (with_live_out (initial_state two_block_program)
                                          [{}, {3}])) ! 1)))
       (scan_start (with_live_out (initial_state two_block_program) [{}, {3}]) 1)
       = (done, demands, [], st)
     \<and> live_set st = {1, 3} \<and> \<not> vcc_seen st"
  by (simp add: two_block_eval)

lemma two_block_step_use_more:
  "\<exists>s'. process_live_temps_per_block
           (with_live_out (initial_state two_block_program) [{}, {3}]) 1 = Inr s'
     \<and> live_out (lv_lives s') = [{1, 3}, {3}]"
proof -
  let ?s = "with_live_out (initial_state two_block_program) [{}, {3}]"
  from two_block_scan_use_more obtain d dm st where
    sc: "scan_instructions (lv_phi_sgpr_ops ?s ! index (blocks (lv_program ?s) ! 1))
       (rev (instructions (blocks (lv_program ?s) ! 1))) (scan_start ?s 1) = (d, dm, [], st)"
    and st: "live_set st = {1, 3}" "\<not> vcc_seen st" by blast
  have b: "index (blocks (lv_program ?s) ! 1) < length (live_register_demand (lv_lives ?s))"
    "index (blocks (lv_program ?s) ! 1) < length (live_out (lv_lives ?s))"
    "index (blocks (lv_program ?s) ! 1) < length (lv_phi_sgpr_ops ?s)"
    "index (blocks (lv_program ?s) ! 1) \<noteq> 0 \<or> (new_demand st = RegisterDemand0 \<and> live_set st = {})"
    by (simp_all add: initial_state_def two_block_program_def use_block_def with_live_out_def)
  have pd: "process_phi_definitions [] st = Inr ([], st)" by simp
  have mg: "foldE (merge_live_in (lv_program ?s) (blocks (lv_program ?s) ! 1))
           (sorted_list_of_set (live_set st)) (pred_start ?s (vcc_seen st))
       = Inr \<lparr>ps_live_out = [{1, 3}, {3}], ps_worklist = {0, 1}, ps_phi_sgpr_ops = [0, 0],
              ps_needs_vcc = False\<rparr>"
    by (simp add: st two_block_eval) (simp add: insert_commute)
  have pp: "process_phis (blocks (lv_program ?s) ! 1) (live_set st) []
       \<lparr>ps_live_out = [{1, 3}, {3}], ps_worklist = {0, 1}, ps_phi_sgpr_ops = [0, 0],
              ps_needs_vcc = False\<rparr>
       = Inr ([], \<lparr>ps_live_out = [{1, 3}, {3}], ps_worklist = {0, 1}, ps_phi_sgpr_ops = [0, 0],
              ps_needs_vcc = False\<rparr>)" by simp
  from process_block_fold [OF b(1-3) sc pd mg pp b(4)] show ?thesis by simp
qed

lemma two_block_simps:
  "lv_program (initial_state two_block_program) = two_block_program\<lparr>needs_vcc := False\<rparr>"
  "live_out (lv_lives (initial_state two_block_program)) = [{}, {}]"
  "lv_program (with_live_out s xs) = lv_program s"
  "live_out (lv_lives (with_live_out s xs)) = xs"
  "blocks (two_block_program\<lparr>needs_vcc := False\<rparr>) = [def_block, use_block]"
  "index use_block = 1" "logical_preds use_block = [0]" "linear_preds use_block = [0]"
  by (simp_all add: initial_state_def two_block_program_def with_live_out_def use_block_def)

subsection \<open>The flags and the demand of one instruction\<close>

lemma process_definition_Pair:
  assumes "process_definition d st = (d', st')"
  shows "d' = (if def_isTemp d then d\<lparr>def_isKill := temp_id (def_temp d) \<notin> live_set st\<rparr> else d)"
    and "live_set st' = live_set st - (if def_isTemp d then {temp_id (def_temp d)} else {})"
    and "new_demand st' = demand_sub (new_demand st)
           (if def_isTemp d' \<and> \<not> def_isKill d' then temp_demand (def_temp d') else RegisterDemand0)"
    and "snapshot st' = demand_add (snapshot st)
           (if def_isTemp d' \<and> def_isKill d' then temp_demand (def_temp d') else RegisterDemand0)"
proof -
  show "d' = (if def_isTemp d then d\<lparr>def_isKill := temp_id (def_temp d) \<notin> live_set st\<rparr> else d)"
    using assms by (auto simp: process_definition_def Let_def split: if_splits)
  show "live_set st' = live_set st - (if def_isTemp d then {temp_id (def_temp d)} else {})"
    using assms by (auto simp: process_definition_def Let_def split: if_splits)
  show "new_demand st' = demand_sub (new_demand st)
           (if def_isTemp d' \<and> \<not> def_isKill d' then temp_demand (def_temp d') else RegisterDemand0)"
    using assms
    by (intro demand_eqI) (auto simp: process_definition_def Let_def split: if_splits)
  show "snapshot st' = demand_add (snapshot st)
           (if def_isTemp d' \<and> def_isKill d' then temp_demand (def_temp d') else RegisterDemand0)"
    using assms
    by (intro demand_eqI) (auto simp: process_definition_def Let_def split: if_splits)
qed

lemma process_definitions_Pair:
  assumes "process_definitions ds st = (ds', st')"
  shows "length ds' = length ds
    \<and> (\<forall>j < length ds. ds' ! j =
          (if def_isTemp (ds ! j)
           then (ds ! j)\<lparr>def_isKill := temp_id (def_temp (ds ! j)) \<notin> live_set st - def_ids (take j ds)\<rparr>
           else ds ! j))
    \<and> new_demand st' = demand_sub (new_demand st) (live_def_demand ds')
    \<and> snapshot st' = demand_add (snapshot st) (dead_def_demand ds')"
  using assms
proof (induction ds arbitrary: st ds' st')
  case Nil
  then show ?case by (auto intro: demand_eqI)
next
  case (Cons d ds)
  obtain d1 st1 where p: "process_definition d st = (d1, st1)"
    by (cases "process_definition d st")
  obtain r st2 where q: "process_definitions ds st1 = (r, st2)"
    by (cases "process_definitions ds st1")
  from Cons.prems p q have e: "ds' = d1 # r" "st' = st2" by simp_all
  note a = process_definition_Pair [OF p]
  from Cons.IH [OF q] have len: "length r = length ds"
    and fl: "\<forall>j < length ds. r ! j =
          (if def_isTemp (ds ! j)
           then (ds ! j)\<lparr>def_isKill := temp_id (def_temp (ds ! j)) \<notin> live_set st1 - def_ids (take j ds)\<rparr>
           else ds ! j)"
    and nd: "new_demand st2 = demand_sub (new_demand st1) (live_def_demand r)"
    and sn: "snapshot st2 = demand_add (snapshot st1) (dead_def_demand r)"
    by simp_all
  have "ds' ! j =
          (if def_isTemp ((d # ds) ! j)
           then ((d # ds) ! j)\<lparr>def_isKill := temp_id (def_temp ((d # ds) ! j))
                                   \<notin> live_set st - def_ids (take j (d # ds))\<rparr>
           else (d # ds) ! j)" if "j < length (d # ds)" for j
  proof (cases j)
    case 0
    then show ?thesis using e a(1) by simp
  next
    case (Suc k)
    with that have k: "k < length ds" by simp
    have "(temp_id (def_temp (ds ! k)) \<notin> live_set st1 - def_ids (take k ds))
        = (temp_id (def_temp (ds ! k)) \<notin> live_set st - def_ids (take (Suc k) (d # ds)))"
      using a(2) by auto
    with fl k Suc e show ?thesis by simp
  qed
  moreover have "new_demand st' = demand_sub (new_demand st) (live_def_demand ds')"
    using nd a(3) e by (intro demand_eqI) auto
  moreover have "snapshot st' = demand_add (snapshot st) (dead_def_demand ds')"
    using sn a(4) e by (intro demand_eqI) auto
  ultimately show ?case using len e by simp
qed

lemma operand_state_simps [simp]:
  "live_set (operand_state x st) = insert (tempId x) (live_set st)"
  "new_demand (operand_state x st) = demand_add (new_demand st)
     (if tempId x \<in> live_set st then RegisterDemand0 else temp_demand (op_temp x))"
  "snapshot (operand_state x st) = demand_add (snapshot st)
     (if tempId x \<notin> live_set st \<and> op_isLateKill x then temp_demand (op_temp x)
      else RegisterDemand0)"
proof -
  show "live_set (operand_state x st) = insert (tempId x) (live_set st)"
    by (simp add: operand_state_def Let_def)
  show "new_demand (operand_state x st) = demand_add (new_demand st)
     (if tempId x \<in> live_set st then RegisterDemand0 else temp_demand (op_temp x))"
    by (intro demand_eqI) (simp_all add: operand_state_def Let_def)
  show "snapshot (operand_state x st) = demand_add (snapshot st)
     (if tempId x \<notin> live_set st \<and> op_isLateKill x then temp_demand (op_temp x)
      else RegisterDemand0)"
    by (intro demand_eqI) (simp_all add: operand_state_def Let_def)
qed

lemma process_operands_Cons:
  "process_operands (x # xs) st =
     (if \<not> op_isTemp x then (x # fst (process_operands xs st), snd (process_operands xs st))
      else if tempId x \<in> live_set st
      then (x # fst (process_operands xs (operand_state x st)),
            snd (process_operands xs (operand_state x st)))
      else (setFirstKill True x
              # fst (process_operands (map (mark_later_operand (setFirstKill True x)) xs)
                       (operand_state x st)),
            snd (process_operands (map (mark_later_operand (setFirstKill True x)) xs)
                   (operand_state x st))))"
  by (simp add: Let_def split_beta operand_state_def tempId_def setFirstKill_def)

lemma flags_clear_setKill [simp]: "flags_clear L (map (setKill False) os)"
  by (simp add: flags_clear_def setKill_def)

lemma flags_clear_Cons:
  "flags_clear L (x # xs)
     = (\<not> isFirstKill_flag x \<and> (isKill_flag x \<longrightarrow> op_isTemp x \<and> tempId x \<in> L)
        \<and> flags_clear L xs)"
  by (auto simp: flags_clear_def)

lemma flags_clear_insert: "flags_clear L xs \<Longrightarrow> flags_clear (insert t L) xs"
  by (auto simp: flags_clear_def)

lemma flags_clear_mark:
  "flags_clear L xs \<Longrightarrow> flags_clear (insert (tempId x) L) (map (mark_later_operand x) xs)"
  by (auto simp: flags_clear_def mark_later_operand_def setKill_def setFirstKill_def tempId_def)

lemma process_operands_flags:
  assumes "flags_clear (live_set st) os" and "k < length os"
  shows "length (fst (process_operands os st)) = length os
    \<and> fst (process_operands os st) ! k = flagged (live_set st) os k"
  using assms
proof (induction os arbitrary: st k rule: length_induct)
  case (1 os)
  show ?case
  proof (cases os)
    case Nil
    with "1.prems" show ?thesis by simp
  next
    case (Cons x xs)
    have IH: "\<And>ys st k. length ys = length xs \<Longrightarrow> flags_clear (live_set st) ys
        \<Longrightarrow> k < length ys
        \<Longrightarrow> length (fst (process_operands ys st)) = length ys
          \<and> fst (process_operands ys st) ! k = flagged (live_set st) ys k"
      using "1.IH" Cons by simp
    have len: "\<And>ys st. length ys = length xs \<Longrightarrow> flags_clear (live_set st) ys
        \<Longrightarrow> length (fst (process_operands ys st)) = length ys"
    proof -
      fix ys :: "Operand list" and st :: scan
      assume a: "length ys = length xs" "flags_clear (live_set st) ys"
      show "length (fst (process_operands ys st)) = length ys"
      proof (cases ys)
        case Nil
        then show ?thesis by simp
      next
        case (Cons y ys')
        then have "0 < length ys" by simp
        from IH [OF a this] show ?thesis by simp
      qed
    qed
    from "1.prems"(1) Cons have c: "\<not> isFirstKill_flag x"
      "isKill_flag x \<longrightarrow> op_isTemp x \<and> tempId x \<in> live_set st" "flags_clear (live_set st) xs"
      by (simp_all add: flags_clear_Cons)
    show ?thesis
    proof (cases "op_isTemp x \<and> tempId x \<notin> live_set st")
      case False
      define st1 where "st1 = (if op_isTemp x then operand_state x st else st)"
      have l1: "live_set st1 = live_set st" using False by (auto simp: st1_def)
      have p: "process_operands (x # xs) st
          = (x # fst (process_operands xs st1), snd (process_operands xs st1))"
        using False
        by (auto simp: process_operands_Cons st1_def simp del: process_operands.simps)
      have c1: "flags_clear (live_set st1) xs" using c(3) l1 by simp
      show ?thesis
      proof (cases k)
        case 0
        then show ?thesis using p Cons False len [OF refl c1]
          by (auto simp: flagged_def simp del: process_operands.simps)
      next
        case (Suc k')
        with "1.prems"(2) Cons have k': "k' < length xs" by simp
        have r: "fst (process_operands (x # xs) st) ! Suc k' = fst (process_operands xs st1) ! k'"
          "length (fst (process_operands (x # xs) st)) = Suc (length (fst (process_operands xs st1)))"
          by (simp_all only: p fst_conv nth_Cons_Suc list.size)
        have "flagged (live_set st) xs k' = flagged (live_set st) (x # xs) (Suc k')"
        proof (cases "op_isTemp (xs ! k') \<and> tempId (xs ! k') \<notin> live_set st")
          case yes: True
          with False have "op_isTemp x \<longrightarrow> tempId x \<noteq> tempId (xs ! k')" by auto
          then show ?thesis using yes by (simp add: flagged_def All_less_Suc2)
        next
          case no: False
          then show ?thesis by (auto simp: flagged_def)
        qed
        with IH [OF refl c1 k'] r Suc Cons l1 show ?thesis
          by (simp del: process_operands.simps)
      qed
    next
      case True
      define x1 where "x1 = setFirstKill True x"
      define xs1 where "xs1 = map (mark_later_operand x1) xs"
      define st1 where "st1 = operand_state x st"
      have p: "process_operands (x # xs) st
          = (x1 # fst (process_operands xs1 st1), snd (process_operands xs1 st1))"
        using True
        by (simp add: process_operands_Cons x1_def xs1_def st1_def del: process_operands.simps)
      have l1: "live_set st1 = insert (tempId x) (live_set st)" by (simp add: st1_def)
      have c1: "flags_clear (live_set st1) xs1"
        using flags_clear_mark [OF c(3), of x1] by (simp add: l1 xs1_def x1_def)
      have lx: "length xs1 = length xs" by (simp add: xs1_def)
      show ?thesis
      proof (cases k)
        case 0
        then show ?thesis using p Cons True len [OF lx c1] lx
          by (simp add: flagged_def x1_def setFirstKill_def del: process_operands.simps)
      next
        case (Suc k')
        with "1.prems"(2) Cons have k': "k' < length xs1" by (simp add: lx)
        have ids: "\<And>j. j < length xs \<Longrightarrow> op_isTemp (xs1 ! j) = op_isTemp (xs ! j)
            \<and> tempId (xs1 ! j) = tempId (xs ! j)"
          by (simp add: xs1_def)
        have m: "xs1 ! k' = (if op_isTemp (xs ! k') \<and> tempId (xs ! k') = tempId x
                    then (xs ! k')\<lparr>isKill_flag := True, isFirstKill_flag := False\<rparr>
                    else xs ! k')"
          using k' lx
          by (simp add: xs1_def x1_def mark_later_operand_def setKill_def setFirstKill_def tempId_def)
        have q: "(\<forall>j < k'. op_isTemp (xs1 ! j) \<longrightarrow> tempId (xs1 ! j) \<noteq> t)
            = (\<forall>j < k'. op_isTemp (xs ! j) \<longrightarrow> tempId (xs ! j) \<noteq> t)" for t
          using ids k' lx by auto
        have r: "fst (process_operands (x # xs) st) ! Suc k' = fst (process_operands xs1 st1) ! k'"
          "length (fst (process_operands (x # xs) st)) = Suc (length (fst (process_operands xs1 st1)))"
          by (simp_all only: p fst_conv nth_Cons_Suc list.size)
        have "flagged (live_set st1) xs1 k' = flagged (live_set st) (x # xs) (Suc k')"
          using True k' lx ids [of k']
          by (auto simp: flagged_def l1 m q All_less_Suc2)
        with IH [OF lx c1 k'] r Suc Cons lx show ?thesis
          by (simp del: process_operands.simps)
      qed
    qed
  qed
qed

lemma flagged_fields [simp]:
  "op_isTemp (flagged L os k) = op_isTemp (os ! k)"
  "op_temp (flagged L os k) = op_temp (os ! k)"
  "tempId (flagged L os k) = tempId (os ! k)"
  "op_isLateKill (flagged L os k) = op_isLateKill (os ! k)"
  by (simp_all add: flagged_def tempId_def)

lemma process_operands_length:
  assumes "flags_clear (live_set st) os"
  shows "length (fst (process_operands os st)) = length os"
proof (cases os)
  case Nil
  then show ?thesis by simp
next
  case (Cons x xs)
  then have "0 < length os" by simp
  from process_operands_flags [OF assms this] show ?thesis by simp
qed

lemma process_operands_demand:
  assumes "flags_clear (live_set st) os"
  shows "new_demand (snd (process_operands os st))
           = demand_add (new_demand st) (first_kill_demand (fst (process_operands os st)))
    \<and> snapshot (snd (process_operands os st))
           = demand_add (snapshot st) (late_kill_demand (fst (process_operands os st)))"
  using assms
proof (induction os arbitrary: st rule: length_induct)
  case (1 os)
  show ?case
  proof (cases os)
    case Nil
    then show ?thesis by (auto intro: demand_eqI)
  next
    case (Cons x xs)
    have IH: "\<And>ys st. length ys = length xs \<Longrightarrow> flags_clear (live_set st) ys
        \<Longrightarrow> new_demand (snd (process_operands ys st))
           = demand_add (new_demand st) (first_kill_demand (fst (process_operands ys st)))
          \<and> snapshot (snd (process_operands ys st))
           = demand_add (snapshot st) (late_kill_demand (fst (process_operands ys st)))"
      using "1.IH" Cons by simp
    from "1.prems"(1) Cons have c: "\<not> isFirstKill_flag x" "flags_clear (live_set st) xs"
      by (simp_all add: flags_clear_Cons)
    show ?thesis
    proof (cases "op_isTemp x \<and> tempId x \<notin> live_set st")
      case False
      define st1 where "st1 = (if op_isTemp x then operand_state x st else st)"
      have l1: "live_set st1 = live_set st" "new_demand st1 = new_demand st"
        "snapshot st1 = snapshot st"
        using False by (auto simp: st1_def intro: demand_eqI)
      have p: "process_operands (x # xs) st
          = (x # fst (process_operands xs st1), snd (process_operands xs st1))"
        using False
        by (auto simp: process_operands_Cons st1_def simp del: process_operands.simps)
      have c1: "flags_clear (live_set st1) xs" using c(2) l1 by simp
      from IH [OF refl c1] c(1) show ?thesis
        unfolding Cons p fst_conv snd_conv l1
        by (auto simp: isFirstKill_def intro!: demand_eqI)
    next
      case True
      define x1 where "x1 = setFirstKill True x"
      define xs1 where "xs1 = map (mark_later_operand x1) xs"
      define st1 where "st1 = operand_state x st"
      have p: "process_operands (x # xs) st
          = (x1 # fst (process_operands xs1 st1), snd (process_operands xs1 st1))"
        using True
        by (simp add: process_operands_Cons x1_def xs1_def st1_def del: process_operands.simps)
      have l1: "live_set st1 = insert (tempId x) (live_set st)"
        "new_demand st1 = demand_add (new_demand st) (temp_demand (op_temp x))"
        "snapshot st1 = demand_add (snapshot st)
           (if op_isLateKill x then temp_demand (op_temp x) else RegisterDemand0)"
        using True by (simp_all add: st1_def)
      have c1: "flags_clear (live_set st1) xs1"
        using flags_clear_mark [OF c(2), of x1] by (simp add: l1 xs1_def x1_def)
      have lx: "length xs1 = length xs" by (simp add: xs1_def)
      have f: "isFirstKill x1" "op_isTemp x1" "op_temp x1 = op_temp x"
        "op_isLateKill x1 = op_isLateKill x"
        using True by (simp_all add: x1_def isFirstKill_def setFirstKill_def)
      from IH [OF lx c1] show ?thesis
        unfolding Cons p fst_conv snd_conv l1
        by (auto simp: f intro!: demand_eqI)
    qed
  qed
qed

lemma process_instruction_Pair:
  assumes "process_instruction phi_ops insn st = (insn', st')"
  shows "opcode insn' = opcode insn \<and> length (definitions insn') = length (definitions insn)
      \<and> (\<forall>j < length (definitions insn). definitions insn' ! j =
          (if def_isTemp (definitions insn ! j)
           then (definitions insn ! j)\<lparr>def_isKill := temp_id (def_temp (definitions insn ! j))
                   \<notin> live_set st - def_ids (take j (definitions insn))\<rparr>
           else definitions insn ! j))
      \<and> length (operands insn') = length (operands insn)
      \<and> (opcode insn = p_logical_end \<longrightarrow> operands insn' = operands insn)
      \<and> (opcode insn \<noteq> p_logical_end \<longrightarrow>
           (\<forall>k < length (operands insn). operands insn' ! k
              = flagged (live_set st - def_ids (definitions insn))
                  (map (setKill False) (operands insn)) k))
      \<and> snapshot st' = demand_add (new_demand st) (transient_demand insn')
      \<and> new_demand st' = demand_step phi_ops insn' (new_demand st)
      \<and> live_set st' = live_before insn (live_set st)"
proof -
  define st0 where
    "st0 = st\<lparr>snapshot := \<lparr>vgpr = vgpr (new_demand st), sgpr = sgpr (new_demand st)\<rparr>\<rparr>"
  have s0: "snapshot st0 = new_demand st" "new_demand st0 = new_demand st"
    "live_set st0 = live_set st" by (simp_all add: st0_def)
  obtain ds' st1 where d: "process_definitions (definitions insn) st0 = (ds', st1)"
    by (cases "process_definitions (definitions insn) st0")
  note dp = process_definitions_Pair [OF d, unfolded s0]
  have l1: "live_set st1 = live_set st - def_ids (definitions insn)"
    using process_definitions_live [of "definitions insn" st0] d by (simp add: st0_def)
  have lv: "live_set st' = live_before insn (live_set st)"
    using process_instruction_live [of phi_ops insn st] assms by simp
  show ?thesis
  proof (cases "opcode insn = p_logical_end")
    case True
    from assms d True have i: "insn' = insn\<lparr>definitions := ds'\<rparr>"
      and s: "st' = st1\<lparr>new_demand := (new_demand st1)\<lparr>sgpr := sgpr (new_demand st1) + int phi_ops\<rparr>,
                 block_register_demand := demand_update (block_register_demand st1) (snapshot st1)\<rparr>"
      by (auto simp: process_instruction_def Let_def st0_def [symmetric])
    show ?thesis
      using dp True lv
      by (simp add: i s transient_demand_def demand_step_def Let_def)
  next
    case False
    obtain os' st2 where o: "process_operands (map (setKill False) (operands insn)) st1 = (os', st2)"
      by (cases "process_operands (map (setKill False) (operands insn)) st1")
    have fc: "flags_clear (live_set st1) (map (setKill False) (operands insn))" by simp
    from assms d o False have i: "insn' = insn\<lparr>definitions := ds', operands := os'\<rparr>"
      and s: "st' = st2\<lparr>block_register_demand :=
                 demand_update (block_register_demand st2) (snapshot st2)\<rparr>"
      by (auto simp: process_instruction_def Let_def st0_def [symmetric])
    have len: "length os' = length (operands insn)"
      using process_operands_length [OF fc] o by simp
    have fl: "os' ! k = flagged (live_set st - def_ids (definitions insn))
                  (map (setKill False) (operands insn)) k" if "k < length (operands insn)" for k
      using process_operands_flags [OF fc, of k] that o l1 by simp
    from process_operands_demand [OF fc] o
    have nd: "new_demand st2 = demand_add (new_demand st1) (first_kill_demand os')"
      and sn: "snapshot st2 = demand_add (snapshot st1) (late_kill_demand os')" by simp_all
    have a: "snapshot st' = demand_add (new_demand st) (transient_demand insn')"
      using sn dp False
      by (intro demand_eqI) (simp_all add: i s transient_demand_def get_temp_registers_split)
    have b: "new_demand st' = demand_step phi_ops insn' (new_demand st)"
      using nd dp False
      by (intro demand_eqI) (simp_all add: i s demand_step_def get_live_changes_split)
    show ?thesis
      using dp False len fl a b lv by (simp add: i)
  qed
qed

subsection \<open>The scan, instruction by instruction\<close>

lemma process_definitions_ids:
  "process_definitions ds st = (ds', st') \<Longrightarrow> def_ids ds' = def_ids ds"
proof (induction ds arbitrary: st ds' st')
  case Nil
  then show ?case by simp
next
  case (Cons d ds)
  obtain d1 st1 where p: "process_definition d st = (d1, st1)"
    by (cases "process_definition d st")
  obtain r st2 where q: "process_definitions ds st1 = (r, st2)"
    by (cases "process_definitions ds st1")
  from Cons.prems p q have e: "ds' = d1 # r" by simp
  from process_definition_Pair(1) [OF p] Cons.IH [OF q] e show ?case by simp
qed

lemma flagged_use_ids:
  assumes "length os' = length os" and "\<forall>k < length os. os' ! k = flagged L os k"
  shows "use_ids os' = use_ids os"
proof -
  have "\<And>k. k < length os \<Longrightarrow> op_isTemp (os' ! k) = op_isTemp (os ! k)
      \<and> tempId (os' ! k) = tempId (os ! k)"
    using assms(2) by simp
  then show ?thesis
    using assms(1) unfolding use_ids_def set_conv_nth by (auto; metis)
qed

lemma process_instruction_live_before:
  assumes "process_instruction phi_ops insn st = (insn', st')"
  shows "live_before insn' L = live_before insn L" and "is_phi insn' = is_phi insn"
proof -
  note p = process_instruction_Pair [OF assms]
  define st0 where
    "st0 = st\<lparr>snapshot := \<lparr>vgpr = vgpr (new_demand st), sgpr = sgpr (new_demand st)\<rparr>\<rparr>"
  obtain ds' st1 where d: "process_definitions (definitions insn) st0 = (ds', st1)"
    by (cases "process_definitions (definitions insn) st0")
  have "definitions insn' = ds'"
    using assms d
    by (auto simp: process_instruction_def Let_def st0_def [symmetric] split: prod.splits if_splits)
  then have di: "def_ids (definitions insn') = def_ids (definitions insn)"
    using process_definitions_ids [OF d] by simp
  have ui: "opcode insn \<noteq> p_logical_end
      \<Longrightarrow> use_ids (operands insn') = use_ids (operands insn)"
  proof -
    assume n: "opcode insn \<noteq> p_logical_end"
    have "use_ids (operands insn') = use_ids (map (setKill False) (operands insn))"
      using p n by (intro flagged_use_ids [where L = "live_set st - def_ids (definitions insn)"]) simp_all
    then show ?thesis by simp
  qed
  show "live_before insn' L = live_before insn L"
    using di ui p by (auto simp: live_before_def)
  show "is_phi insn' = is_phi insn" using p by (simp add: is_phi_def)
qed

lemma live_through_cong:
  assumes "length ys = length xs"
    and "\<forall>k < length xs. is_phi (ys ! k) = is_phi (xs ! k)
           \<and> (\<forall>L. live_before (ys ! k) L = live_before (xs ! k) L)"
  shows "live_through ys L = live_through xs L"
  using assms
proof (induction xs arbitrary: ys L)
  case Nil
  then show ?case by simp
next
  case (Cons x xs)
  then obtain y ys' where y: "ys = y # ys'" by (cases ys) auto
  from Cons.prems(2) y have h: "is_phi y = is_phi x" "\<And>L. live_before y L = live_before x L"
    by (auto dest: spec [of _ 0])
  have t: "\<forall>k < length xs. is_phi (ys' ! k) = is_phi (xs ! k)
           \<and> (\<forall>L. live_before (ys' ! k) L = live_before (xs ! k) L)"
    using Cons.prems(2) y by auto
  from Cons.prems(1) y have "length ys' = length xs" by simp
  from Cons.IH [OF this t] h y show ?case by simp
qed

text \<open>The scan at its k-th step.\<close>

lemma scan_instructions_nth:
  assumes "scan_instructions phi_ops xs st = (done, demands, phis, st')" and "k < length done"
  shows "\<exists>stk stk'. process_instruction phi_ops (xs ! k) stk = (done ! k, stk')
      \<and> demands ! k = snapshot stk'
      \<and> live_set stk = live_through (take k done) (live_set st)
      \<and> new_demand stk = demand_through phi_ops (take k done) (new_demand st)
      \<and> k < length xs \<and> \<not> is_phi (xs ! k)"
  using assms
proof (induction xs arbitrary: st "done" demands phis st' k)
  case Nil
  then show ?case by simp
next
  case (Cons x xs)
  show ?case
  proof (cases "is_phi x")
    case True
    with Cons.prems show ?thesis by auto
  next
    case False
    obtain x' st1 where p: "process_instruction phi_ops x st = (x', st1)"
      by (cases "process_instruction phi_ops x st")
    obtain d2 dm2 ph2 st2 where r: "scan_instructions phi_ops xs st1 = (d2, dm2, ph2, st2)"
      by (cases "scan_instructions phi_ops xs st1") auto
    from Cons.prems(1) False p r have e: "done = x' # d2" "demands = snapshot st1 # dm2"
      by simp_all
    note ip = process_instruction_Pair [OF p]
    note lb = process_instruction_live_before [OF p]
    show ?thesis
    proof (cases k)
      case 0
      then show ?thesis using p e False by auto
    next
      case (Suc k')
      with Cons.prems(2) e have k': "k' < length d2" by simp
      from Cons.IH [OF r k'] obtain stk stk' where
        a: "process_instruction phi_ops (xs ! k') stk = (d2 ! k', stk')"
        "dm2 ! k' = snapshot stk'"
        "live_set stk = live_through (take k' d2) (live_set st1)"
        "new_demand stk = demand_through phi_ops (take k' d2) (new_demand st1)"
        "k' < length xs" "\<not> is_phi (xs ! k')" by blast
      have "live_set stk = live_through (take k done) (live_set st)"
        using a(3) ip lb False by (simp add: Suc e)
      moreover have "new_demand stk = demand_through phi_ops (take k done) (new_demand st)"
        using a(4) ip by (simp add: Suc e)
      ultimately show ?thesis using a(1,2,5,6) Suc e
        by (intro exI [of _ stk] exI [of _ stk']) simp
    qed
  qed
qed

lemma scan_instructions_final:
  assumes "scan_instructions phi_ops xs st = (done, demands, phis, st')"
  shows "new_demand st' = demand_through phi_ops done (new_demand st)
    \<and> live_set st' = live_through done (live_set st)
    \<and> (\<forall>i \<in> set done. \<not> is_phi i)"
  using assms
proof (induction xs arbitrary: st "done" demands phis st')
  case Nil
  then show ?case by simp
next
  case (Cons x xs)
  show ?case
  proof (cases "is_phi x")
    case True
    with Cons.prems show ?thesis by auto
  next
    case False
    obtain x' st1 where p: "process_instruction phi_ops x st = (x', st1)"
      by (cases "process_instruction phi_ops x st")
    obtain d2 dm2 ph2 st2 where r: "scan_instructions phi_ops xs st1 = (d2, dm2, ph2, st2)"
      by (cases "scan_instructions phi_ops xs st1") auto
    from Cons.prems(1) False p r have e: "done = x' # d2" "st' = st2" by simp_all
    note ip = process_instruction_Pair [OF p]
    note lb = process_instruction_live_before [OF p]
    from Cons.IH [OF r] ip lb False e show ?thesis by simp
  qed
qed

subsection \<open>C10: the frame of the per-block step\<close>

text \<open>
  C10: a per-block step that returns keeps the number of stored live-out sets, only adds to
  them, and changes none but those of the logical and linear predecessors of the block; so
  the stored live-out set of the block itself is as before when the block is not among its
  own predecessors.
\<close>

theorem process_block_frame:
  assumes "process_live_temps_per_block s b = Inr s'"
  shows "length (live_out (lv_lives s')) = length (live_out (lv_lives s))
    \<and> (\<forall>q < length (live_out (lv_lives s)).
          live_out (lv_lives s) ! q \<subseteq> live_out (lv_lives s') ! q
          \<and> (q \<notin> set (logical_preds (blocks (lv_program s) ! b))
                 \<union> set (linear_preds (blocks (lv_program s) ! b))
               \<longrightarrow> live_out (lv_lives s') ! q = live_out (lv_lives s) ! q))
    \<and> (index (blocks (lv_program s) ! b)
          \<notin> set (logical_preds (blocks (lv_program s) ! b))
             \<union> set (linear_preds (blocks (lv_program s) ! b))
        \<longrightarrow> live_out (lv_lives s') ! index (blocks (lv_program s) ! b)
            = live_out (lv_lives s) ! index (blocks (lv_program s) ! b))"
proof -
  from process_block_unfold [OF assms]
  have i: "index (blocks (lv_program s) ! b) < length (live_out (lv_lives s))" by blast
  note f = process_block_frame_list [OF assms]
  show ?thesis
  proof (intro conjI allI impI)
    show "length (live_out (lv_lives s')) = length (live_out (lv_lives s))" by (rule f(1))
  next
    fix q assume "q < length (live_out (lv_lives s))"
    then show "live_out (lv_lives s) ! q \<subseteq> live_out (lv_lives s') ! q" by (rule f(2))
  next
    fix q assume "q < length (live_out (lv_lives s))"
      and "q \<notin> set (logical_preds (blocks (lv_program s) ! b))
                 \<union> set (linear_preds (blocks (lv_program s) ! b))"
    then show "live_out (lv_lives s') ! q = live_out (lv_lives s) ! q" by (rule f(3))
  next
    assume "index (blocks (lv_program s) ! b)
          \<notin> set (logical_preds (blocks (lv_program s) ! b))
             \<union> set (linear_preds (blocks (lv_program s) ! b))"
    with i show "live_out (lv_lives s') ! index (blocks (lv_program s) ! b)
            = live_out (lv_lives s) ! index (blocks (lv_program s) ! b)" by (rule f(3))
  qed
qed

theorem process_block_frame_witness:
  "\<exists>s'. process_live_temps_per_block (initial_state two_block_program) 1 = Inr s'
     \<and> live_out (lv_lives s') = [{1}, {}]
     \<and> length (live_out (lv_lives s')) = 2
     \<and> live_out (lv_lives s') ! 1 = {}"
proof -
  from two_block_step_use obtain s' where
    r: "process_live_temps_per_block (initial_state two_block_program) 1 = Inr s'"
    and l: "live_out (lv_lives s') = [{1}, {}]" by blast
  from process_block_frame [OF r]
  have "length (live_out (lv_lives s')) = 2 \<and> live_out (lv_lives s') ! 1 = {}"
    by (simp add: two_block_simps)
  with r l show ?thesis by blast
qed

subsection \<open>C8: monotonicity of the per-block step\<close>

text \<open>
  C8: two runs of the per-block step for the same block of the same program, the stored
  live-out set S of the block in the first run a subset of the (finite) set S' in the
  second; each run adds to the stored live-out set of every block q exactly the set
  propagated to q for its input, and the set propagated for S is a subset of the set
  propagated for S'.
\<close>

theorem process_block_monotone:
  assumes "process_live_temps_per_block s b = Inr r"
    and "process_live_temps_per_block s2 b = Inr r2"
    and "lv_program s2 = lv_program s"
    and "length (live_out (lv_lives s2)) = length (live_out (lv_lives s))"
    and "live_out (lv_lives s) ! index (blocks (lv_program s) ! b)
           \<subseteq> live_out (lv_lives s2) ! index (blocks (lv_program s) ! b)"
    and "finite (live_out (lv_lives s2) ! index (blocks (lv_program s) ! b))"
  shows "\<forall>q < length (live_out (lv_lives s)).
      live_out (lv_lives r) ! q
        = live_out (lv_lives s) ! q
          \<union> propagated (lv_program s) (blocks (lv_program s) ! b)
              (live_out (lv_lives s) ! index (blocks (lv_program s) ! b)) q
    \<and> live_out (lv_lives r2) ! q
        = live_out (lv_lives s2) ! q
          \<union> propagated (lv_program s) (blocks (lv_program s) ! b)
              (live_out (lv_lives s2) ! index (blocks (lv_program s) ! b)) q
    \<and> propagated (lv_program s) (blocks (lv_program s) ! b)
          (live_out (lv_lives s) ! index (blocks (lv_program s) ! b)) q
        \<subseteq> propagated (lv_program s) (blocks (lv_program s) ! b)
          (live_out (lv_lives s2) ! index (blocks (lv_program s) ! b)) q"
proof (intro allI impI conjI)
  fix q assume q: "q < length (live_out (lv_lives s))"
  have f: "finite (live_out (lv_lives s) ! index (blocks (lv_program s) ! b))"
    using assms(5,6) by (rule finite_subset)
  show "live_out (lv_lives r) ! q
        = live_out (lv_lives s) ! q
          \<union> propagated (lv_program s) (blocks (lv_program s) ! b)
              (live_out (lv_lives s) ! index (blocks (lv_program s) ! b)) q"
    using assms(1) f q by (rule process_block_live_out(2))
  have f2: "finite (live_out (lv_lives s2) ! index (blocks (lv_program s2) ! b))"
    using assms(6) by (simp add: assms(3))
  have q2: "q < length (live_out (lv_lives s2))" using q assms(4) by simp
  show "live_out (lv_lives r2) ! q
        = live_out (lv_lives s2) ! q
          \<union> propagated (lv_program s) (blocks (lv_program s) ! b)
              (live_out (lv_lives s2) ! index (blocks (lv_program s) ! b)) q"
    using process_block_live_out(2) [OF assms(2) f2 q2] by (simp add: assms(3))
  show "propagated (lv_program s) (blocks (lv_program s) ! b)
          (live_out (lv_lives s) ! index (blocks (lv_program s) ! b)) q
        \<subseteq> propagated (lv_program s) (blocks (lv_program s) ! b)
          (live_out (lv_lives s2) ! index (blocks (lv_program s) ! b)) q"
    using assms(5) by (rule propagated_mono)
qed

theorem process_block_monotone_witness:
  "\<exists>r r2. process_live_temps_per_block (initial_state two_block_program) 1 = Inr r
     \<and> process_live_temps_per_block
          (with_live_out (initial_state two_block_program) [{}, {3}]) 1 = Inr r2
     \<and> live_out (lv_lives r) ! 0 = {1} \<and> live_out (lv_lives r2) ! 0 = {1, 3}
     \<and> propagated (two_block_program\<lparr>needs_vcc := False\<rparr>) use_block {} 0 = {1}
     \<and> propagated (two_block_program\<lparr>needs_vcc := False\<rparr>) use_block {3} 0 = {1, 3}"
proof -
  from two_block_step_use obtain r where
    r: "process_live_temps_per_block (initial_state two_block_program) 1 = Inr r"
    and l: "live_out (lv_lives r) = [{1}, {}]" by blast
  from two_block_step_use_more obtain r2 where
    r2: "process_live_temps_per_block
          (with_live_out (initial_state two_block_program) [{}, {3}]) 1 = Inr r2"
    and l2: "live_out (lv_lives r2) = [{1, 3}, {3}]" by blast
  have h: "lv_program (with_live_out (initial_state two_block_program) [{}, {3}])
             = lv_program (initial_state two_block_program)"
    "length (live_out (lv_lives (with_live_out (initial_state two_block_program) [{}, {3}])))
       = length (live_out (lv_lives (initial_state two_block_program)))"
    "live_out (lv_lives (initial_state two_block_program))
         ! index (blocks (lv_program (initial_state two_block_program)) ! 1)
       \<subseteq> live_out (lv_lives (with_live_out (initial_state two_block_program) [{}, {3}]))
         ! index (blocks (lv_program (initial_state two_block_program)) ! 1)"
    "finite (live_out (lv_lives (with_live_out (initial_state two_block_program) [{}, {3}]))
         ! index (blocks (lv_program (initial_state two_block_program)) ! 1))"
    "0 < length (live_out (lv_lives (initial_state two_block_program)))"
    by (simp_all add: two_block_simps)
  from process_block_monotone [OF r r2 h(1-4), rule_format, OF h(5)]
  have "propagated (two_block_program\<lparr>needs_vcc := False\<rparr>) use_block {} 0 = {1}
     \<and> propagated (two_block_program\<lparr>needs_vcc := False\<rparr>) use_block {3} 0 = {1, 3}"
    by (simp add: two_block_simps l l2)
  with r r2 l l2 show ?thesis by simp
qed

subsection \<open>The last step on a block\<close>

lemma initial_demand_temp_rc:
  "temp_rc p = temp_rc q \<Longrightarrow> initial_demand p L = initial_demand q L"
  by (simp add: initial_demand_def)

lemma scan_start_demand:
  "new_demand (scan_start s b)
     = start_demand (lv_program s) (live_out (lv_lives s) ! index (blocks (lv_program s) ! b))
         (lv_phi_sgpr_ops s ! index (blocks (lv_program s) ! b))"
  by (simp add: scan_start_def start_demand_def Let_def)

lemma process_phis_all_phi:
  "process_phis block live phis ps = Inr (phis', ps') \<Longrightarrow> \<forall>i \<in> set phis'. is_phi i"
proof (induction phis arbitrary: ps phis' ps')
  case Nil
  then show ?case by simp
next
  case (Cons x xs)
  from Cons.prems obtain x' m r where m: "process_phi block live x ps = Inr (x', m)"
    and r: "process_phis block live xs m = Inr (r, ps')" and p: "phis' = x' # r"
    by (auto simp: bindE_Inr_iff split: prod.splits)
  from process_phi_Inr(2,3) [OF m] have "is_phi x'" by (simp add: is_phi_def)
  with Cons.IH [OF r] p show ?case by simp
qed

lemma block_result_block:
  assumes "b < length (blocks (lv_program s))"
  shows "instructions (blocks (lv_program (block_result s b d dm ph st st1 ps)) ! b)
           = rev ph @ rev d"
    and "index (blocks (lv_program (block_result s b d dm ph st st1 ps)) ! b)
           = index (blocks (lv_program s) ! b)"
    and "logical_preds (blocks (lv_program (block_result s b d dm ph st st1 ps)) ! b)
           = logical_preds (blocks (lv_program s) ! b)"
    and "linear_preds (blocks (lv_program (block_result s b d dm ph st st1 ps)) ! b)
           = linear_preds (blocks (lv_program s) ! b)"
    and "q \<noteq> b \<Longrightarrow> blocks (lv_program (block_result s b d dm ph st st1 ps)) ! q
           = blocks (lv_program s) ! q"
    and "length (blocks (lv_program (block_result s b d dm ph st st1 ps)))
           = length (blocks (lv_program s))"
    and "temp_rc (lv_program (block_result s b d dm ph st st1 ps)) = temp_rc (lv_program s)"
    and "progress (lv_program (block_result s b d dm ph st st1 ps)) = progress (lv_program s)"
  using assms by (simp_all add: block_result_def Let_def)

lemma block_result_demand:
  "length (live_register_demand (lv_lives (block_result s b d dm ph st st1 ps)))
     = length (live_register_demand (lv_lives s))"
  "index (blocks (lv_program s) ! b) < length (live_register_demand (lv_lives s))
     \<Longrightarrow> live_register_demand (lv_lives (block_result s b d dm ph st st1 ps))
           ! index (blocks (lv_program s) ! b)
         = replicate (length ph) (new_demand st1) @ rev dm"
  "q \<noteq> index (blocks (lv_program s) ! b)
     \<Longrightarrow> live_register_demand (lv_lives (block_result s b d dm ph st st1 ps)) ! q
         = live_register_demand (lv_lives s) ! q"
  by (simp_all add: block_result_def Let_def)

text \<open>
  What the last step on a block says of an instruction of the block that is not a phi: it
  is the result of the loop body at a state with the live set and the demand that the scan
  has after the instructions behind it.
\<close>

lemma last_step_instruction:
  assumes q: "last_step s b"
    and i: "i < length (instructions (blocks (lv_program s) ! b))"
    and n: "\<not> is_phi (instructions (blocks (lv_program s) ! b) ! i)"
  shows "\<exists>insn st st'.
      process_instruction (lv_phi_sgpr_ops s ! b) insn st
        = (instructions (blocks (lv_program s) ! b) ! i, st')
    \<and> i < length (live_register_demand (lv_lives s) ! b)
    \<and> live_register_demand (lv_lives s) ! b ! i = snapshot st'
    \<and> live_set st = live_through (rev (drop (Suc i) (instructions (blocks (lv_program s) ! b))))
                       (live_out (lv_lives s) ! b)
    \<and> new_demand st = demand_through (lv_phi_sgpr_ops s ! b)
                         (rev (drop (Suc i) (instructions (blocks (lv_program s) ! b))))
                         (start_demand (lv_program s) (live_out (lv_lives s) ! b)
                            (lv_phi_sgpr_ops s ! b))"
proof -
  from q obtain s0 s1 where r: "process_live_temps_per_block s0 b = Inr s1"
    and b: "b < length (blocks (lv_program s0))" and ix: "index (blocks (lv_program s0) ! b) = b"
    and rc: "temp_rc (lv_program s0) = temp_rc (lv_program s)"
    and lo: "live_out (lv_lives s0) ! b = live_out (lv_lives s) ! b"
    and po: "lv_phi_sgpr_ops s0 ! b = lv_phi_sgpr_ops s ! b"
    and bl: "blocks (lv_program s1) ! b = blocks (lv_program s) ! b"
    and dv: "live_register_demand (lv_lives s1) ! b = live_register_demand (lv_lives s) ! b"
    unfolding last_step_def by blast
  define block where "block = blocks (lv_program s0) ! b"
  from process_block_unfold [OF r, folded block_def]
  obtain d dm phis st phis1 st1 ps1 phis2 ps2 where
    bd: "index block < length (live_register_demand (lv_lives s0))"
    and sc: "scan_instructions (lv_phi_sgpr_ops s0 ! index block) (rev (instructions block))
           (scan_start s0 b) = (d, dm, phis, st)"
    and pd: "process_phi_definitions phis st = Inr (phis1, st1)"
    and pp: "process_phis block (live_set st1) phis1 ps1 = Inr (phis2, ps2)"
    and s1: "s1 = block_result s0 b d dm phis2 st st1 ps2"
    by blast
  let ?is = "instructions (blocks (lv_program s) ! b)"
  have "instructions (blocks (lv_program s1) ! b) = rev phis2 @ rev d"
    unfolding s1 using b by (rule block_result_block(1))
  with bl have isq: "?is = rev phis2 @ rev d" by simp
  have dm: "live_register_demand (lv_lives s) ! b = replicate (length phis2) (new_demand st1) @ rev dm"
    using block_result_demand(2) [of s0 b d dm phis2 st st1 ps2] bd dv
    by (simp add: s1 block_def ix)
  have ph: "\<forall>x \<in> set phis2. is_phi x" using pp by (rule process_phis_all_phi)
  have len: "length dm = length d" using scan_instructions_phis [OF sc] by simp
  have ige: "length phis2 \<le> i"
  proof (rule ccontr)
    assume "\<not> length phis2 \<le> i"
    then have lt: "i < length phis2" by simp
    then have "?is ! i = rev phis2 ! i" by (simp add: isq nth_append)
    moreover have "rev phis2 ! i \<in> set phis2"
      using lt by (metis length_rev nth_mem set_rev)
    ultimately show False using ph n by auto
  qed
  define j where "j = i - length phis2"
  define k where "k = length d - Suc j"
  have j: "j < length d" using i ige by (simp add: isq j_def)
  have k: "k < length d" using j by (simp add: k_def)
  have nth: "?is ! i = d ! k"
    using ige j by (simp add: isq nth_append j_def [symmetric] rev_nth k_def)
  have tk: "rev (drop (Suc i) ?is) = take k d"
  proof -
    have "drop (Suc i) ?is = drop (Suc j) (rev d)"
      using ige by (simp add: isq j_def Suc_diff_le)
    then show ?thesis by (simp add: rev_drop k_def)
  qed
  have dnth: "live_register_demand (lv_lives s) ! b ! i = dm ! k"
    using ige j len by (simp add: dm nth_append j_def [symmetric] rev_nth k_def)
  have dlen: "i < length (live_register_demand (lv_lives s) ! b)"
    using i len by (simp add: dm isq)
  from scan_instructions_nth [OF sc k] obtain stk stk' where
    a: "process_instruction (lv_phi_sgpr_ops s0 ! index block) (rev (instructions block) ! k) stk
          = (d ! k, stk')"
    "dm ! k = snapshot stk'"
    "live_set stk = live_through (take k d) (live_set (scan_start s0 b))"
    "new_demand stk = demand_through (lv_phi_sgpr_ops s0 ! index block) (take k d)
                        (new_demand (scan_start s0 b))"
    by blast
  have ib: "index block = b" by (simp add: block_def ix)
  have sd: "new_demand (scan_start s0 b)
      = start_demand (lv_program s) (live_out (lv_lives s) ! b) (lv_phi_sgpr_ops s ! b)"
    using initial_demand_temp_rc [OF rc]
    by (simp add: scan_start_demand ix lo po start_demand_def)
  have sl: "live_set (scan_start s0 b) = live_out (lv_lives s) ! b"
    by (simp add: ix lo)
  show ?thesis
    using a dlen unfolding ib po sd sl nth [symmetric] tk [symmetric] dnth [symmetric]
    by blast
qed

subsection \<open>The invariant of the worklist loop\<close>

lemma process_block_grow:
  assumes "process_live_temps_per_block s b = Inr s'"
  shows "\<exists>d dm phis2 st st1 ps v.
      s' = block_result s b d dm phis2 st st1 ps \<and> pred_grow (pred_start s v) ps
    \<and> index (blocks (lv_program s) ! b) < length (live_register_demand (lv_lives s))"
proof -
  from process_block_unfold [OF assms]
  obtain d dm phis st phis1 st1 ps1 phis2 ps2 where
    bd: "index (blocks (lv_program s) ! b) < length (live_register_demand (lv_lives s))"
    and mg: "foldE (merge_live_in (lv_program s) (blocks (lv_program s) ! b))
           (sorted_list_of_set (live_set st1)) (pred_start s (vcc_seen st1)) = Inr ps1"
    and pp: "process_phis (blocks (lv_program s) ! b) (live_set st1) phis1 ps1 = Inr (phis2, ps2)"
    and s': "s' = block_result s b d dm phis2 st st1 ps2"
    by blast
  from foldE_merge_live_in [OF mg] have g1: "pred_grow (pred_start s (vcc_seen st1)) ps1" by simp
  from process_phis_Inr [OF pp] have g2: "pred_grow ps1 ps2" by simp
  from pred_grow_trans [OF g1 g2] s' bd show ?thesis by blast
qed

lemma initial_state_inv:
  assumes "index_is_position p"
  shows "analysis_inv p (initial_state p)"
proof -
  have "set (map index (blocks p)) \<subseteq> {..<length (blocks p)}"
    using assms unfolding index_is_position_def
    by (auto simp: in_set_conv_nth)
  moreover have "b \<in> set (map index (blocks p))" if "b < length (blocks p)" for b
  proof -
    have "index (blocks p ! b) = b" using assms that by (simp add: index_is_position_def)
    then show ?thesis using that by (metis length_map nth_map nth_mem)
  qed
  ultimately show ?thesis
    using assms by (simp add: analysis_inv_def initial_state_def index_is_position_def)
qed

lemma worklist_step_inv:
  assumes inv: "analysis_inv p s" and ne: "lv_worklist s \<noteq> {}"
    and st: "worklist_step s = Inr s'"
  shows "analysis_inv p s'"
proof -
  define N where "N = length (blocks p)"
  define b where "b = Max (lv_worklist s)"
  define sr where "sr = s\<lparr>lv_worklist := lv_worklist s - {b}\<rparr>"
  from inv have fin: "finite (lv_worklist s)" and sub: "lv_worklist s \<subseteq> {..<N}"
    unfolding analysis_inv_def N_def by (auto intro: finite_subset)
  have bw: "b \<in> lv_worklist s" unfolding b_def using fin ne by (rule Max_in)
  with sub have bN: "b < N" by auto
  from inv have len: "length (blocks (lv_program s)) = N"
    "length (live_out (lv_lives s)) = N" "length (lv_phi_sgpr_ops s) = N"
    "length (live_register_demand (lv_lives s)) = N"
    and ix: "\<And>i. i < N \<Longrightarrow> index (blocks (lv_program s) ! i) = i"
    and rc: "temp_rc (lv_program s) = temp_rc p"
    and ls: "\<And>q. q < N \<Longrightarrow> q \<notin> lv_worklist s \<Longrightarrow> last_step s q"
    unfolding analysis_inv_def N_def by simp_all
  from st bN len obtain s1 where r: "process_live_temps_per_block sr b = Inr s1"
    and s': "s' = s1\<lparr>lv_new_demand := demand_update (lv_new_demand s1)
                      (register_demand (blocks (lv_program s1) ! b))\<rparr>"
    unfolding worklist_step_def Let_def b_def [symmetric] sr_def [symmetric]
    by (auto simp: bindE_Inr_iff sr_def split: if_splits)
  have srf: "lv_program sr = lv_program s" "lv_lives sr = lv_lives s"
    "lv_phi_sgpr_ops sr = lv_phi_sgpr_ops s" "lv_worklist sr = lv_worklist s - {b}"
    by (simp_all add: sr_def)
  from process_block_grow [OF r] obtain d dm phis2 st0 st1 ps v where
    s1: "s1 = block_result sr b d dm phis2 st0 st1 ps"
    and g: "pred_grow (pred_start sr v) ps" by blast
  have bl: "b < length (blocks (lv_program sr))" using bN len srf by simp
  note br = block_result_block [OF bl, where d = d and dm = dm and ph = phis2 and st = st0
      and ?st1.0 = st1 and ps = ps, folded s1, unfolded srf]
  note bd = block_result_demand [where s = sr and b = b and d = d and dm = dm and ph = phis2
      and st = st0 and ?st1.0 = st1 and ps = ps, folded s1, unfolded srf]
  have ib: "index (blocks (lv_program s) ! b) = b" using ix bN by simp
  from g have g1: "length (live_out (lv_lives s1)) = N" "length (lv_phi_sgpr_ops s1) = N"
    and gw: "lv_worklist s - {b} \<subseteq> lv_worklist s1" "lv_worklist s1 \<subseteq> {..<N}"
    and gc: "\<And>q. q \<notin> lv_worklist s1 \<Longrightarrow> live_out (lv_lives s1) ! q = live_out (lv_lives s) ! q
                 \<and> lv_phi_sgpr_ops s1 ! q = lv_phi_sgpr_ops s ! q"
    using sub len unfolding pred_grow_def s1 by (auto simp: srf)
  have f: "lv_program s' = lv_program s1" "lv_lives s' = lv_lives s1"
    "lv_phi_sgpr_ops s' = lv_phi_sgpr_ops s1" "lv_worklist s' = lv_worklist s1"
    by (simp_all add: s')
  have ix': "index (blocks (lv_program s1) ! i) = i" if "i < N" for i
  proof (cases "i = b")
    case True
    then show ?thesis using br(2) ib by simp
  next
    case False
    then show ?thesis using br(5) [of i] ix that by simp
  qed
  have last: "last_step s' q" if q: "q < N" "q \<notin> lv_worklist s1" for q
  proof (cases "q = b")
    case True
    have "process_live_temps_per_block sr b = Inr s1
        \<and> b < length (blocks (lv_program sr)) \<and> index (blocks (lv_program sr) ! b) = b
        \<and> temp_rc (lv_program sr) = temp_rc (lv_program s')
        \<and> live_out (lv_lives sr) ! b = live_out (lv_lives s') ! b
        \<and> lv_phi_sgpr_ops sr ! b = lv_phi_sgpr_ops s' ! b
        \<and> blocks (lv_program s1) ! b = blocks (lv_program s') ! b
        \<and> live_register_demand (lv_lives s1) ! b = live_register_demand (lv_lives s') ! b"
      using r bl ib br(7) gc [of b] q True by (simp add: f srf)
    then show ?thesis unfolding last_step_def True by blast
  next
    case False
    with q gw have "q \<notin> lv_worklist s" by auto
    from ls [OF q(1) this] obtain t0 t1 where
      t: "process_live_temps_per_block t0 q = Inr t1"
      "q < length (blocks (lv_program t0))" "index (blocks (lv_program t0) ! q) = q"
      "temp_rc (lv_program t0) = temp_rc (lv_program s)"
      "live_out (lv_lives t0) ! q = live_out (lv_lives s) ! q"
      "lv_phi_sgpr_ops t0 ! q = lv_phi_sgpr_ops s ! q"
      "blocks (lv_program t1) ! q = blocks (lv_program s) ! q"
      "live_register_demand (lv_lives t1) ! q = live_register_demand (lv_lives s) ! q"
      unfolding last_step_def by blast
    have "temp_rc (lv_program t0) = temp_rc (lv_program s')
        \<and> live_out (lv_lives t0) ! q = live_out (lv_lives s') ! q
        \<and> lv_phi_sgpr_ops t0 ! q = lv_phi_sgpr_ops s' ! q
        \<and> blocks (lv_program t1) ! q = blocks (lv_program s') ! q
        \<and> live_register_demand (lv_lives t1) ! q = live_register_demand (lv_lives s') ! q"
      using t(4-8) br(5) [OF False] br(7) gc [OF q(2)] bd(3) [of q] False ib
      by (simp add: f)
    with t(1-3) show ?thesis unfolding last_step_def by blast
  qed
  show ?thesis
    unfolding analysis_inv_def N_def [symmetric] f
    using br(6) len ix' g1 bd(1) br(7) rc gw(2) last by (simp add: f)
qed

lemma worklist_loop_inv:
  assumes "worklist_loop s = Some (Inr sf)" and "analysis_inv p s"
  shows "analysis_inv p sf \<and> lv_worklist sf = {}"
proof -
  have "analysis_inv p x
      \<longrightarrow> (\<forall>sf. r = Inr sf \<longrightarrow> analysis_inv p sf \<and> lv_worklist sf = {})"
    if "worklist_loop x = Some r" for x r
  proof (rule worklist_loop.raw_induct
      [where P = "\<lambda>x r. analysis_inv p x
         \<longrightarrow> (\<forall>sf. r = Inr sf \<longrightarrow> analysis_inv p sf \<and> lv_worklist sf = {})", OF _ that])
    fix loop s r
    assume IH: "\<And>x y. loop x = Some y \<Longrightarrow> analysis_inv p x
         \<longrightarrow> (\<forall>sf. y = Inr sf \<longrightarrow> analysis_inv p sf \<and> lv_worklist sf = {})"
      and eq: "(if lv_worklist s = {} then Some (Inr s)
                else case worklist_step s of Inl e \<Rightarrow> Some (Inl e) | Inr s' \<Rightarrow> loop s')
               = Some r"
    show "analysis_inv p s
         \<longrightarrow> (\<forall>sf. r = Inr sf \<longrightarrow> analysis_inv p sf \<and> lv_worklist sf = {})"
    proof (intro impI allI)
      fix sf assume inv: "analysis_inv p s" and rf: "r = Inr sf"
      show "analysis_inv p sf \<and> lv_worklist sf = {}"
      proof (cases "lv_worklist s = {}")
        case True
        with eq rf inv show ?thesis by simp
      next
        case False
        show ?thesis
        proof (cases "worklist_step s")
          case (Inl e)
          with eq False rf show ?thesis by simp
        next
          case (Inr s')
          with eq False have l: "loop s' = Some r" by simp
          from worklist_step_inv [OF inv False Inr] have "analysis_inv p s'" .
          with IH [OF l] rf show ?thesis by simp
        qed
      qed
    qed
  qed
  with assms show ?thesis by simp
qed

text \<open>After the analysis every block has had its last step with the data stored at the end.\<close>

lemma analysis_last_step:
  assumes "worklist_loop (initial_state p) = Some (Inr s)" and "index_is_position p"
    and "b < length (blocks p)"
  shows "last_step s b" and "length (blocks (lv_program s)) = length (blocks p)"
    and "temp_rc (lv_program s) = temp_rc p"
proof -
  from worklist_loop_inv [OF assms(1) initial_state_inv [OF assms(2)]]
  have i: "analysis_inv p s" and w: "lv_worklist s = {}" by simp_all
  from i w assms(3) show "last_step s b" by (simp add: analysis_inv_def)
  from i show "length (blocks (lv_program s)) = length (blocks p)"
    "temp_rc (lv_program s) = temp_rc p" by (simp_all add: analysis_inv_def)
qed

subsection \<open>The analysis of the example programs\<close>









subsection \<open>C1: the kill flags of the operands\<close>





subsection \<open>The snapshots after the analysis\<close>

lemma demand_through_append:
  "demand_through phi_ops (xs @ ys) D = demand_through phi_ops ys (demand_through phi_ops xs D)"
  by (induction xs arbitrary: D) simp_all

lemma rev_drop_Suc:
  assumes "Suc i < length xs"
  shows "rev (drop (Suc i) xs) = rev (drop (Suc (Suc i)) xs) @ [xs ! Suc i]"
proof -
  have "drop (Suc i) xs = xs ! Suc i # drop (Suc (Suc i)) xs"
    using assms by (simp add: Cons_nth_drop_Suc)
  then show ?thesis by simp
qed

lemma dead_def_demand_append:
  "dead_def_demand (xs @ ys) = demand_add (dead_def_demand xs) (dead_def_demand ys)"
  by (induction xs) (auto intro!: demand_eqI)

lemma live_def_demand_append:
  "live_def_demand (xs @ ys) = demand_add (live_def_demand xs) (live_def_demand ys)"
  by (induction xs) (auto intro!: demand_eqI)

lemma dead_def_demand_remove:
  assumes "j < length ds" and "def_isTemp (ds ! j)" and "def_isKill (ds ! j)"
  shows "dead_def_demand ds = demand_add (temp_demand (def_temp (ds ! j)))
           (dead_def_demand (take j ds @ drop (Suc j) ds))"
    and "live_def_demand ds = live_def_demand (take j ds @ drop (Suc j) ds)"
proof -
  have ds: "ds = take j ds @ ds ! j # drop (Suc j) ds"
    using assms(1) by (simp add: id_take_nth_drop [symmetric])
  have "dead_def_demand (take j ds @ ds ! j # drop (Suc j) ds)
      = demand_add (temp_demand (def_temp (ds ! j)))
           (dead_def_demand (take j ds @ drop (Suc j) ds))"
    using assms(2,3) by (intro demand_eqI) (simp_all add: dead_def_demand_append)
  with ds show "dead_def_demand ds = demand_add (temp_demand (def_temp (ds ! j)))
           (dead_def_demand (take j ds @ drop (Suc j) ds))" by simp
  have "live_def_demand (take j ds @ ds ! j # drop (Suc j) ds)
      = live_def_demand (take j ds @ drop (Suc j) ds)"
    using assms(2,3) by (intro demand_eqI) (simp_all add: live_def_demand_append)
  with ds show "live_def_demand ds = live_def_demand (take j ds @ drop (Suc j) ds)" by simp
qed

text \<open>In a block that has had its step, nothing behind an instruction that is not a phi is one.\<close>

lemma last_step_nonphi_after:
  assumes q: "last_step s b"
    and i: "i < length (instructions (blocks (lv_program s) ! b))"
    and n: "\<not> is_phi (instructions (blocks (lv_program s) ! b) ! i)"
    and i': "i \<le> i'" "i' < length (instructions (blocks (lv_program s) ! b))"
  shows "\<not> is_phi (instructions (blocks (lv_program s) ! b) ! i')"
proof -
  from q obtain s0 s1 where r: "process_live_temps_per_block s0 b = Inr s1"
    and b: "b < length (blocks (lv_program s0))"
    and bl: "blocks (lv_program s1) ! b = blocks (lv_program s) ! b"
    unfolding last_step_def by blast
  define block where "block = blocks (lv_program s0) ! b"
  from process_block_unfold [OF r, folded block_def]
  obtain d dm phis st phis1 st1 ps1 phis2 ps2 where
    sc: "scan_instructions (lv_phi_sgpr_ops s0 ! index block) (rev (instructions block))
           (scan_start s0 b) = (d, dm, phis, st)"
    and pp: "process_phis block (live_set st1) phis1 ps1 = Inr (phis2, ps2)"
    and s1: "s1 = block_result s0 b d dm phis2 st st1 ps2"
    by blast
  let ?is = "instructions (blocks (lv_program s) ! b)"
  have "instructions (blocks (lv_program s1) ! b) = rev phis2 @ rev d"
    unfolding s1 using b by (rule block_result_block(1))
  with bl have isq: "?is = rev phis2 @ rev d" by simp
  have ph: "\<forall>x \<in> set phis2. is_phi x" using pp by (rule process_phis_all_phi)
  have np: "\<forall>x \<in> set d. \<not> is_phi x" using scan_instructions_final [OF sc] by simp
  have ige: "length phis2 \<le> i"
  proof (rule ccontr)
    assume "\<not> length phis2 \<le> i"
    then have lt: "i < length phis2" by simp
    then have "?is ! i = rev phis2 ! i" by (simp add: isq nth_append)
    moreover have "rev phis2 ! i \<in> set phis2"
      using lt by (metis length_rev nth_mem set_rev)
    ultimately show False using ph n by auto
  qed
  with i' have "length phis2 \<le> i'" by simp
  with i' have "?is ! i' = rev d ! (i' - length phis2)" "i' - length phis2 < length (rev d)"
    by (simp_all add: isq nth_append)
  then have "?is ! i' \<in> set d" by (metis nth_mem set_rev)
  with np show ?thesis by simp
qed

text \<open>
  After the analysis, the snapshot of an instruction that is not a phi is the running demand
  of the scan at the instruction plus the transient demand of the instruction.
\<close>

lemma analysis_snapshot:
  assumes "worklist_loop (initial_state p) = Some (Inr s)" and "index_is_position p"
    and "b < length (blocks p)" and "i < length (instructions (blocks (lv_program s) ! b))"
    and "\<not> is_phi (instructions (blocks (lv_program s) ! b) ! i)"
  shows "i < length (live_register_demand (lv_lives s) ! b)
    \<and> live_register_demand (lv_lives s) ! b ! i
      = demand_add
          (demand_through (lv_phi_sgpr_ops s ! b)
             (rev (drop (Suc i) (instructions (blocks (lv_program s) ! b))))
             (start_demand (lv_program s) (live_out (lv_lives s) ! b) (lv_phi_sgpr_ops s ! b)))
          (transient_demand (instructions (blocks (lv_program s) ! b) ! i))"
proof -
  from analysis_last_step(1) [OF assms(1-3)] have "last_step s b" .
  from last_step_instruction [OF this assms(4,5)] obtain insn0 st st' where
    pi: "process_instruction (lv_phi_sgpr_ops s ! b) insn0 st
           = (instructions (blocks (lv_program s) ! b) ! i, st')"
    and a: "i < length (live_register_demand (lv_lives s) ! b)"
      "live_register_demand (lv_lives s) ! b ! i = snapshot st'"
      "new_demand st = demand_through (lv_phi_sgpr_ops s ! b)
                         (rev (drop (Suc i) (instructions (blocks (lv_program s) ! b))))
                         (start_demand (lv_program s) (live_out (lv_lives s) ! b)
                            (lv_phi_sgpr_ops s ! b))"
    by blast
  from process_instruction_Pair [OF pi] a show ?thesis by simp
qed

end
